theory Spec2Isabelle
  imports Main "HOL-Library.Word"
begin

unbundle bit_operations_syntax

section \<open>Bytes, streams and the collaborators of the container codecs\<close>

type_synonym byte = "8 word"
type_synonym bytes = "byte list"

text \<open>
  A \<open>std::istream\<close> as the codec sees it: the bytes not yet consumed and the two state
  bits the code tests (\<open>operator!\<close> is \<open>fail()\<close>, \<open>eof()\<close> is the eofbit).
\<close>

record istream =
  unread :: bytes
  failbit :: bool
  eofbit :: bool

text \<open>
  Modelled from the spec: class \<open>nv_group\<close> is declared in nonvol.h, which is not among
  the sources. The codec only uses \<open>name()\<close>, \<open>bytes()\<close> and \<open>magic()\<close> of a group; the
  payload is kept as raw bytes.
\<close>

record nv_group =
  g_magic :: bytes
  g_version :: bytes
  g_name :: string
  g_bytes :: nat
  g_payload :: bytes

text \<open>
  Modelled from the spec: class \<open>profile\<close> (profile.h) is not among the sources; the
  codec reads \<open>name()\<close>, \<open>md5_key()\<close> and \<open>default_keys()\<close> of a profile.
\<close>

record profile =
  p_name :: string
  md5_key :: bytes
  default_keys :: "bytes list"

text \<open>\<open>nv_group::type_perm\<close>, \<open>type_dyn\<close> and \<open>type_cfg\<close>.\<close>

datatype group_type = type_perm | type_dyn | type_cfg | type_unknown

text \<open>
  What the codec calls but does not define. OpenSSL's AES and MD5 are external;
  \<open>nv_group::read\<close>, \<open>settings::write\<close> (the serialisation of the group list) and
  \<open>profile::list\<close> belong to files that are not among the sources. They are parameters
  of the model:
  \<^item> \<open>aes_encrypt key block\<close> is \<open>AES_set_encrypt_key(key, 256)\<close> followed by
    \<open>AES_encrypt\<close> of one block, \<open>aes_decrypt\<close> likewise;
  \<^item> \<open>md5\<close> is \<open>MD5_Init\<close>, \<open>MD5_Update\<close>, \<open>MD5_Final\<close>;
  \<^item> \<open>nv_group_read ist grp ty remaining\<close> is \<open>nv_group::read\<close>: it returns the
    stream and the group pointer as the call leaves them;
  \<^item> \<open>settings_write\<close> is \<open>settings::write\<close> into a string stream;
  \<^item> \<open>profile_list\<close> is \<open>profile::list()\<close>.
\<close>

record env =
  aes_encrypt :: "bytes \<Rightarrow> bytes \<Rightarrow> bytes"
  aes_decrypt :: "bytes \<Rightarrow> bytes \<Rightarrow> bytes"
  md5 :: "bytes \<Rightarrow> bytes"
  nv_group_read :: "istream \<Rightarrow> nv_group option \<Rightarrow> group_type \<Rightarrow> 64 word
                      \<Rightarrow> istream \<times> nv_group option"
  settings_write :: "(string \<times> nv_group) list \<Rightarrow> bytes"
  profile_list :: "profile list"

section \<open>Fixed-width fields and exceptions\<close>

text \<open>
  Modelled from the spec: \<open>nv_u32\<close> and \<open>nv_version\<close> are declared in nonvol.h, which is
  not among the sources. A u32 is four bytes, most significant first (\<open>bswapper<uint32_t>\<close>
  of util.h is \<open>ntohl\<close> and \<open>htonl\<close>); a version is two bytes. A read that finds too few
  bytes leaves the stream failed, which is \<open>None\<close> here.
\<close>

definition u32_bytes :: "32 word \<Rightarrow> bytes" where
  "u32_bytes w = [ucast (drop_bit 24 w), ucast (drop_bit 16 w), ucast (drop_bit 8 w), ucast w]"

definition u32_of :: "byte \<Rightarrow> byte \<Rightarrow> byte \<Rightarrow> byte \<Rightarrow> 32 word" where
  "u32_of a b c d =
     push_bit 24 (ucast a) OR push_bit 16 (ucast b) OR push_bit 8 (ucast c) OR ucast d"

fun nv_u32_read :: "bytes \<Rightarrow> (32 word \<times> bytes) option" where
  "nv_u32_read (a # b # c # d # rest) = Some (u32_of a b c d, rest)"
| "nv_u32_read _ = None"

fun nv_version_read :: "bytes \<Rightarrow> ((byte \<times> byte) \<times> bytes) option" where
  "nv_version_read (a # b # rest) = Some ((a, b), rest)"
| "nv_version_read _ = None"

definition nv_version_write :: "byte \<times> byte \<Rightarrow> bytes" where
  "nv_version_write v = [fst v, snd v]"

text \<open>
  The \<open>runtime_error\<close>s of gwsettings.cc, named by their messages. \<open>null_group\<close> stands
  for the dereference of a group pointer that is still null.
\<close>

datatype error =
    failed_to_read_header
  | found_non_0xff_byte_in_magic
  | failed_to_read_group
  | null_group
  | error_while_reading_header
  | cannot_write_file_without_a_profile
  | failed_to_read_file

text \<open>
  A member function either returns or throws; in both cases the object is left in the
  state the function had reached.
\<close>

datatype 'a outcome = Returned 'a | Threw error 'a

fun state_of :: "'a outcome \<Rightarrow> 'a" where
  "state_of (Returned x) = x"
| "state_of (Threw e x) = x"

fun thrown :: "'a outcome \<Rightarrow> bool" where
  "thrown (Returned x) = False"
| "thrown (Threw e x) = True"

fun map_outcome :: "('a \<Rightarrow> 'b) \<Rightarrow> 'a outcome \<Rightarrow> 'b outcome" where
  "map_outcome f (Returned x) = Returned (f x)"
| "map_outcome f (Threw e x) = Threw e (f x)"

text \<open>\<open>std::to_string\<close> of an unsigned number: its decimal digits.\<close>

definition digit_char :: "nat \<Rightarrow> char" where
  "digit_char d = ''0123456789'' ! (d mod 10)"

function to_string :: "nat \<Rightarrow> string" where
  "to_string n = (if n < 10 then [digit_char n] else to_string (n div 10) @ [digit_char (n mod 10)])"
  by pat_completeness auto
termination
  by (relation "measure id") auto

declare to_string.simps [simp del]

section \<open>CRC-32 of the permdyn container\<close>

text \<open>
  \<open>boost::crc_32_type\<close> is \<open>crc_optimal<32, 0x04C11DB7, 0xFFFFFFFF, 0xFFFFFFFF, true, true>\<close>:
  every input byte is reflected and fed, most significant bit first, into a 32-bit
  register that starts at \<open>0xFFFFFFFF\<close>; \<open>checksum()\<close> reflects the register and applies
  the final XOR.
\<close>

fun crc_shift :: "nat \<Rightarrow> 32 word \<Rightarrow> 32 word" where
  "crc_shift 0 r = r"
| "crc_shift (Suc n) r =
     crc_shift n (if bit r 31 then push_bit 1 r XOR 0x04C11DB7 else push_bit 1 r)"

definition process_byte :: "32 word \<Rightarrow> byte \<Rightarrow> 32 word" where
  "process_byte r b = crc_shift 8 (r XOR push_bit 24 (ucast (word_reverse b)))"

definition crc_32_register :: "bytes \<Rightarrow> 32 word" where
  "crc_32_register buf = word_reverse (foldl process_byte 0xFFFFFFFF buf)"

definition crc_32_checksum :: "bytes \<Rightarrow> 32 word" where
  "crc_32_checksum buf = crc_32_register buf XOR 0xFFFFFFFF"

text \<open>
  \<open>permdyn::crc32\<close>: \<open>for_each(buf.begin(), buf.end(), crc)() ^ 0xffffffff\<close>. The call
  operator without arguments is \<open>checksum()\<close>; the code XORs its result once more.
\<close>

definition crc32 :: "bytes \<Rightarrow> 32 word" where
  "crc32 buf = crc_32_checksum buf XOR 0xffffffff"

section \<open>AES-256-ECB with a verbatim tail\<close>

text \<open>
  \<open>AES_encrypt\<close> and \<open>AES_decrypt\<close> write exactly 16 bytes at the output pointer, into
  a buffer that \<open>crypt\<close> has sized and zero-filled beforehand.
\<close>

definition blk16 :: "bytes \<Rightarrow> bytes" where
  "blk16 xs = take 16 (xs @ replicate 16 0)"

text \<open>The \<open>while (remaining >= 16)\<close> loop of \<open>crypt\<close>, and the \<open>memcpy\<close> of the rest.\<close>

function crypt_blocks :: "(bytes \<Rightarrow> bytes) \<Rightarrow> bytes \<Rightarrow> bytes" where
  "crypt_blocks f ibuf =
     (if 16 \<le> length ibuf
      then blk16 (f (take 16 ibuf)) @ crypt_blocks f (drop 16 ibuf)
      else ibuf)"
  by pat_completeness auto
termination
  by (relation "measure (\<lambda>(f, ibuf). length ibuf)") auto

declare crypt_blocks.simps [simp del]

text \<open>The input of the block loop: \<open>ibuf += string(16, '\0')\<close> on the encrypting branch.\<close>

definition crypt_input :: "bytes \<Rightarrow> bool \<Rightarrow> bool \<Rightarrow> bytes" where
  "crypt_input ibuf decrypt pad =
     (if decrypt then ibuf else if pad then ibuf @ replicate 16 0 else ibuf)"

definition crypt_cipher :: "env \<Rightarrow> bytes \<Rightarrow> bool \<Rightarrow> bytes \<Rightarrow> bytes" where
  "crypt_cipher E key decrypt = (if decrypt then aes_decrypt E key else aes_encrypt E key)"

definition crypt :: "env \<Rightarrow> bytes \<Rightarrow> bytes \<Rightarrow> bool \<Rightarrow> bool \<Rightarrow> bytes" where
  "crypt E ibuf key decrypt pad =
     crypt_blocks (crypt_cipher E key decrypt) (crypt_input ibuf decrypt pad)"

section \<open>The group-stream reader\<close>

text \<open>The members of the base class \<open>settings\<close> that the readers and writers use.\<close>

record settings =
  m_type :: group_type
  m_profile :: "profile option"
  m_permissive :: bool
  m_groups :: "(string \<times> nv_group) list"

text \<open>
  Modelled from the spec: \<open>settings::find\<close> is not among the sources; it tells whether a
  group of that name is already in the list.
\<close>

definition find_group :: "(string \<times> nv_group) list \<Rightarrow> string \<Rightarrow> bool" where
  "find_group groups name = (name \<in> set (map fst groups))"

text \<open>
  The loop of \<open>settings::read(istream&)\<close>. \<open>remaining\<close> is a \<open>size_t\<close> and \<open>mult\<close> an
  \<open>unsigned\<close>, so both wrap around. The loop need not end (a group reader that never
  fails, never reaches the end of its input and reports groups of zero bytes keeps it
  running), which is the result \<open>None\<close>.
\<close>

partial_function (option) settings_read_loop ::
  "env \<Rightarrow> bool \<Rightarrow> group_type \<Rightarrow> istream \<Rightarrow> nv_group option \<Rightarrow> 64 word \<Rightarrow> 32 word
   \<Rightarrow> (string \<times> nv_group) list \<Rightarrow> (istream \<times> (string \<times> nv_group) list) outcome option" where
  "settings_read_loop E permissive ty ist grp remaining mult groups =
     (if remaining \<noteq> 0 \<and> \<not> eofbit ist then
        (case nv_group_read E ist grp ty remaining of
           (ist', grp') \<Rightarrow>
             if failbit ist' \<and> \<not> eofbit ist' then
               (if \<not> permissive
                then Some (Threw (case grp' of None \<Rightarrow> null_group | Some g \<Rightarrow> failed_to_read_group)
                                 (ist', groups))
                else Some (Returned (ist'\<lparr>failbit := False, eofbit := True\<rparr>, groups)))
             else
               (case grp' of
                  None \<Rightarrow> Some (Threw null_group (ist', groups))
                | Some g \<Rightarrow>
                    if find_group groups (g_name g)
                    then settings_read_loop E permissive ty ist' grp'
                           (remaining - word_of_nat (g_bytes g)) (mult + 1)
                           (groups @ [(g_name g @ ''_'' @ to_string (unat (mult + 1)), g)])
                    else settings_read_loop E permissive ty ist' grp'
                           (remaining - word_of_nat (g_bytes g)) mult
                           (groups @ [(g_name g, g)])))
      else Some (Returned (ist, groups)))"

declare settings_read_loop.simps [code]

text \<open>
  \<open>settings::read(istream&)\<close>: \<open>data_bytes()\<close> is virtual, so the caller passes its value.
\<close>

definition settings_read ::
  "env \<Rightarrow> 'a settings_scheme \<Rightarrow> 64 word \<Rightarrow> istream \<Rightarrow> 'a settings_scheme outcome option" where
  "settings_read E c data_bytes ist =
     map_option (map_outcome (\<lambda>(ist', groups). c\<lparr>m_groups := groups\<rparr>))
       (settings_read_loop E (m_permissive c) (m_type c) ist None data_bytes 1 (m_groups c))"

section \<open>The permdyn container\<close>

record permdyn = settings +
  pm_size :: "32 word"
  pm_checksum :: "32 word"
  pm_checksum_valid :: bool

text \<open>The two lines that \<open>permdyn::read\<close> sends to the logger.\<close>

datatype log_line = checksum_ok "32 word" | checksum_mismatch "32 word" "32 word"

text \<open>\<open>in_stream buf\<close> is \<open>istringstream istr(buf)\<close>.\<close>

definition in_stream :: "bytes \<Rightarrow> istream" where
  "in_stream buf = \<lparr>unread = buf, failbit = False, eofbit = False\<rparr>"

text \<open>
  \<open>permdyn::read\<close>, on the bytes that follow the sixteen the dispatcher has consumed.
  \<open>read_stream\<close> returns everything that is left. \<open>m_size.num() + 16\<close> is computed on
  32 bits; \<open>data_bytes()\<close> is \<open>bytes() - 8\<close> on a \<open>size_t\<close>.
\<close>

definition permdyn_read ::
  "env \<Rightarrow> permdyn \<Rightarrow> bytes \<Rightarrow> (permdyn \<times> log_line list) outcome option" where
  "permdyn_read E c inp =
     (if length inp < 0xba then Some (Threw failed_to_read_header (c, []))
      else case nv_u32_read (drop 0xba inp) of
        None \<Rightarrow> Some (Threw failed_to_read_header (c, []))
      | Some (sz, r1) \<Rightarrow>
         (case nv_u32_read r1 of
            None \<Rightarrow> Some (Threw failed_to_read_header (c\<lparr>pm_size := sz\<rparr>, []))
          | Some (cks, r2) \<Rightarrow>
             (let c1 = c\<lparr>pm_size := sz, pm_checksum := cks\<rparr> in
              if \<exists>b \<in> set (take 0xba inp). b \<noteq> 0xff
              then Some (Threw found_non_0xff_byte_in_magic (c1, []))
              else
                (let buf = take (unat (sz + 16)) r2;
                     crc = crc32 buf;
                     log = [if crc = cks then checksum_ok crc else checksum_mismatch crc cks]
                 in map_option (map_outcome (\<lambda>c2. (c2, log)))
                      (settings_read E c1 (ucast sz - 8) (in_stream buf))))))"

text \<open>\<open>permdyn::write\<close>; the output stream is taken to accept every write.\<close>

definition permdyn_write :: "env \<Rightarrow> permdyn \<Rightarrow> bytes" where
  "permdyn_write E c =
     (let buf = settings_write E (m_groups c)
      in replicate 0xca 0xff @ u32_bytes (word_of_nat (8 + length buf))
           @ u32_bytes (crc32 buf) @ buf)"

section \<open>The gwsettings container\<close>

record gwsettings = settings +
  m_checksum :: bytes
  m_is_auto_profile :: bool
  m_checksum_valid :: bool
  m_magic_valid :: bool
  m_size_valid :: bool
  m_encrypted :: bool
  m_version :: "byte \<times> byte"
  m_size :: "32 word"
  m_key :: bytes
  m_padded :: bool

definition s_magic :: bytes where
  "s_magic = map (\<lambda>c. word_of_nat (of_char c))
     ''6u9E9eWF0bt9Y8Rw690Le4669JYe4d-056T9p4ijm4EA6u9ee659jn9E-54e4j6rPj069K-670''"

text \<open>\<open>calc_checksum\<close>: the digest is written into a string of sixteen bytes.\<close>

definition calc_checksum :: "env \<Rightarrow> bytes \<Rightarrow> profile option \<Rightarrow> bytes" where
  "calc_checksum E buf p =
     blk16 (md5 E (buf @ (case p of None \<Rightarrow> [] | Some q \<Rightarrow> md5_key q)))"

definition validate_checksum :: "env \<Rightarrow> gwsettings \<Rightarrow> bytes \<Rightarrow> profile option \<Rightarrow> gwsettings" where
  "validate_checksum E c buf p = c\<lparr>m_checksum_valid := (m_checksum c = calc_checksum E buf p)\<rparr>"

text \<open>The loop over \<open>profile::list()\<close> in \<open>validate_checksum_and_detect_profile\<close>.\<close>

fun detect_profile :: "env \<Rightarrow> gwsettings \<Rightarrow> bytes \<Rightarrow> profile list \<Rightarrow> gwsettings" where
  "detect_profile E c buf [] = c"
| "detect_profile E c buf (p # ps) =
     (let c' = validate_checksum E c buf (Some p) in
      if m_checksum_valid c' then c'\<lparr>m_is_auto_profile := True, m_profile := Some p\<rparr>
      else detect_profile E c' buf ps)"

definition validate_checksum_and_detect_profile :: "env \<Rightarrow> gwsettings \<Rightarrow> bytes \<Rightarrow> gwsettings" where
  "validate_checksum_and_detect_profile E c buf =
     (case m_profile c of
        Some p \<Rightarrow> validate_checksum E c buf (Some p)
      | None \<Rightarrow> detect_profile E c buf (profile_list E))"

text \<open>
  \<open>decrypt\<close>, \<open>decrypt_with_profile\<close> and \<open>decrypt_and_detect_profile\<close> take the buffer
  by reference: they return their result, the buffer and the object.
\<close>

definition decrypt :: "env \<Rightarrow> gwsettings \<Rightarrow> bytes \<Rightarrow> bytes \<Rightarrow> bool \<times> bytes \<times> gwsettings" where
  "decrypt E c buf key =
     (let decrypted = crypt E buf key True False in
      if take 74 decrypted = s_magic then (True, decrypted, c\<lparr>m_magic_valid := True\<rparr>)
      else (False, buf, c))"

fun decrypt_with_keys ::
  "env \<Rightarrow> gwsettings \<Rightarrow> bytes \<Rightarrow> bytes list \<Rightarrow> bool \<times> bytes \<times> gwsettings" where
  "decrypt_with_keys E c buf [] = (False, buf, c)"
| "decrypt_with_keys E c buf (k # ks) =
     (case decrypt E c buf k of
        (True, buf', c') \<Rightarrow> (True, buf', c'\<lparr>m_key := k\<rparr>)
      | (False, buf', c') \<Rightarrow> decrypt_with_keys E c' buf' ks)"

definition decrypt_with_profile ::
  "env \<Rightarrow> gwsettings \<Rightarrow> bytes \<Rightarrow> profile \<Rightarrow> bool \<times> bytes \<times> gwsettings" where
  "decrypt_with_profile E c buf p = decrypt_with_keys E c buf (default_keys p)"

fun decrypt_with_profiles ::
  "env \<Rightarrow> gwsettings \<Rightarrow> bytes \<Rightarrow> profile list \<Rightarrow> bool \<times> bytes \<times> gwsettings" where
  "decrypt_with_profiles E c buf [] = (False, buf, c)"
| "decrypt_with_profiles E c buf (p # ps) =
     (case decrypt_with_profile E c buf p of
        (True, buf', c') \<Rightarrow> (True, buf', c')
      | (False, buf', c') \<Rightarrow> decrypt_with_profiles E c' buf' ps)"

definition decrypt_and_detect_profile ::
  "env \<Rightarrow> gwsettings \<Rightarrow> bytes \<Rightarrow> bool \<times> bytes \<times> gwsettings" where
  "decrypt_and_detect_profile E c buf =
     (if m_key c \<noteq> [] then decrypt E c buf (m_key c)
      else case m_profile c of
        Some p \<Rightarrow> decrypt_with_profile E c buf p
      | None \<Rightarrow> decrypt_with_profiles E c buf (profile_list E))"

text \<open>
  The header fields and the size check of \<open>gwsettings::read\<close>, after the magic has been
  found. \<open>m_size.num() + 16\<close> is computed on 32 bits; \<open>data_bytes()\<close> is
  \<open>bytes() - (s_magic.size() + 6)\<close> on a \<open>size_t\<close>.
\<close>

definition check_size :: "gwsettings \<Rightarrow> bytes \<Rightarrow> gwsettings" where
  "check_size c buf =
     (let c1 = c\<lparr>m_size_valid := (unat (m_size c) = length buf)\<rparr> in
      if \<not> m_size_valid c1 then
        (if unat (m_size c1 + 16) = length buf
         then c1\<lparr>m_padded := True, m_size_valid := True\<rparr>
         else c1)
      else c1)"

definition read_body :: "env \<Rightarrow> gwsettings \<Rightarrow> bytes \<Rightarrow> gwsettings outcome option" where
  "read_body E c buf =
     (case nv_version_read (drop (length s_magic) buf) of
        None \<Rightarrow> Some (Threw error_while_reading_header c)
      | Some (ver, r1) \<Rightarrow>
         (case nv_u32_read r1 of
            None \<Rightarrow> Some (Threw error_while_reading_header (c\<lparr>m_version := ver\<rparr>))
          | Some (sz, r2) \<Rightarrow>
              (let c1 = check_size (c\<lparr>m_version := ver, m_size := sz\<rparr>) buf
               in settings_read E c1 (ucast (m_size c1) - 80) (in_stream r2))))"

text \<open>\<open>gwsettings::read\<close>, on the bytes that follow the sixteen of the checksum.\<close>

definition gwsettings_read :: "env \<Rightarrow> gwsettings \<Rightarrow> bytes \<Rightarrow> gwsettings outcome option" where
  "gwsettings_read E c buf =
     (let magic = take (length s_magic) buf;
          c1 = validate_checksum_and_detect_profile E c buf;
          c2 = c1\<lparr>m_magic_valid := (magic = s_magic)\<rparr>
      in case (if m_magic_valid c2 then (True, buf, c2) else decrypt_and_detect_profile E c2 buf) of
           (False, buf', c3) \<Rightarrow> Some (Returned (c3\<lparr>m_encrypted := True\<rparr>))
         | (True, buf', c3) \<Rightarrow> read_body E c3 buf')"

text \<open>
  \<open>gwsettings::write\<close>; the output stream is taken to accept every write. \<open>write_buf\<close>
  is the local \<open>buf\<close> at the point where the checksum is computed: magic, version, size
  and groups, encrypted when a key is set.
\<close>

definition write_buf :: "env \<Rightarrow> gwsettings \<Rightarrow> bytes" where
  "write_buf E c =
     (let body = settings_write E (m_groups c);
          header = s_magic @ nv_version_write (m_version c)
                     @ u32_bytes (word_of_nat (length s_magic + 6 + length body))
      in if m_key c \<noteq> [] then crypt E (header @ body) (m_key c) False (m_padded c)
         else header @ body)"

definition gwsettings_write :: "env \<Rightarrow> gwsettings \<Rightarrow> error + bytes" where
  "gwsettings_write E c =
     (case m_profile c of
        None \<Rightarrow> Inl cannot_write_file_without_a_profile
      | Some p \<Rightarrow>
          Inr (calc_checksum E (write_buf E c) (m_profile c) @ write_buf E c
                 @ (if m_padded c then replicate 16 0 else [])))"

text \<open>The object that \<open>new gwsettings(checksum, p)\<close> constructs.\<close>

definition new_gwsettings :: "bool \<Rightarrow> bytes \<Rightarrow> profile option \<Rightarrow> gwsettings" where
  "new_gwsettings permissive checksum p =
     \<lparr>m_type = type_cfg, m_profile = p, m_permissive = permissive, m_groups = [],
      m_checksum = checksum, m_is_auto_profile = False, m_checksum_valid = False,
      m_magic_valid = False, m_size_valid = False, m_encrypted = False,
      m_version = (0, 0), m_size = 0, m_key = [], m_padded = False\<rparr>"

text \<open>The object that \<open>new permdyn(dyn, p)\<close> constructs.\<close>

definition new_permdyn :: "bool \<Rightarrow> bool \<Rightarrow> profile option \<Rightarrow> permdyn" where
  "new_permdyn permissive dyn p =
     \<lparr>m_type = (if dyn then type_dyn else type_perm), m_profile = p,
      m_permissive = permissive, m_groups = [],
      pm_size = 0, pm_checksum = 0, pm_checksum_valid = False\<rparr>"

section \<open>The container dispatcher\<close>

text \<open>
  The static \<open>settings::read(is, type, p, key)\<close>: it reads sixteen bytes, constructs a
  \<open>permdyn\<close> when these are all \<open>0xFF\<close> and the type is \<open>type_dyn\<close> or \<open>type_perm\<close>, and a
  \<open>gwsettings\<close> with these bytes as checksum otherwise, and calls \<open>read\<close> on the object.
  Its argument \<open>key\<close> occurs nowhere in its body. Whether a new object is permissive
  is decided by the constructor of \<open>settings\<close>, which is not among the sources, so it
  is an argument here.
\<close>

datatype settings_object =
    Permdyn "(permdyn \<times> log_line list) outcome"
  | Gwsettings "gwsettings outcome"
  | No_object error

definition read_settings ::
  "env \<Rightarrow> bool \<Rightarrow> bytes \<Rightarrow> group_type \<Rightarrow> profile option \<Rightarrow> bytes
   \<Rightarrow> settings_object option" where
  "read_settings E permissive inp ty p key =
     (if length inp < 16 then Some (No_object failed_to_read_file)
      else if take 16 inp = replicate 16 0xff \<and> (ty = type_dyn \<or> ty = type_perm)
      then map_option Permdyn
             (permdyn_read E (new_permdyn permissive (ty = type_dyn) p) (drop 16 inp))
      else map_option Gwsettings
             (gwsettings_read E (new_gwsettings permissive (take 16 inp) p) (drop 16 inp)))"

section \<open>The key search of \<open>decrypt_and_detect_profile\<close>, as a list\<close>

text \<open>
  Two auxiliary definitions, with which the key search of the code is compared.
  \<open>trial_succeeds\<close> is the test that \<open>decrypt\<close> makes: the decryption of the buffer begins
  with the 74 bytes of the magic. \<open>trial_keys\<close> lists the keys in the order in which
  \<open>decrypt_and_detect_profile\<close> takes them: the member \<open>m_key\<close> alone when it is not
  empty; else the default keys of the object's profile; else the default keys of every
  profile of the registry, profile by profile. \<open>m_key\<close> is a member of the object, not
  an argument of the caller: the constructor leaves it empty and only a successful
  trial sets it.
\<close>

definition trial_succeeds :: "env \<Rightarrow> bytes \<Rightarrow> bytes \<Rightarrow> bool" where
  "trial_succeeds E buf key = (take 74 (crypt E buf key True False) = s_magic)"

definition trial_keys :: "env \<Rightarrow> gwsettings \<Rightarrow> bytes list" where
  "trial_keys E c =
     (if m_key c \<noteq> [] then [m_key c]
      else case m_profile c of
        Some p \<Rightarrow> default_keys p
      | None \<Rightarrow> concat (map default_keys (profile_list E)))"

section \<open>The renaming of duplicate groups, as one counter\<close>

text \<open>
  These two definitions describe the names that the group-stream reader assigns; the
  reader is compared with them. \<open>renamed_count\<close> counts the entries whose name is not
  the group's own. \<open>counter_names\<close> says of a list that every entry whose own name occurs
  among the names before it is called by that name followed by \<open>_\<close> and a number, which
  is 2 plus the number of entries renamed before it (modulo \<open>2^32\<close>, the counter being
  an \<open>unsigned\<close>), and that every other entry keeps its own name.
\<close>

definition renamed_count :: "(string \<times> nv_group) list \<Rightarrow> nat" where
  "renamed_count gs = length (filter (\<lambda>(n, g). n \<noteq> g_name g) gs)"

definition counter_names :: "(string \<times> nv_group) list \<Rightarrow> bool" where
  "counter_names gs =
     (\<forall>i < length gs.
        fst (gs ! i) =
          (if find_group (take i gs) (g_name (snd (gs ! i)))
           then g_name (snd (gs ! i)) @ ''_''
                  @ to_string ((renamed_count (take i gs) + 2) mod 2 ^ 32)
           else g_name (snd (gs ! i))))"

section \<open>A small instance of the collaborators\<close>

text \<open>
  To run the codec on concrete inputs the parameters need values. The block cipher of
  this instance adds the first key byte to every byte of the block, its digest is
  sixteen copies of the byte sum, and its groups follow the record layout of the
  container format: a big-endian u16 size, four bytes of magic, two bytes of version
  and \<open>size - 8\<close> bytes of payload; a group is named by the characters of its magic up
  to the first zero byte.
\<close>

definition demo_key_byte :: "bytes \<Rightarrow> byte" where
  "demo_key_byte key = (case key of [] \<Rightarrow> 0 | k # _ \<Rightarrow> k)"

definition demo_encrypt :: "bytes \<Rightarrow> bytes \<Rightarrow> bytes" where
  "demo_encrypt key blk = map (\<lambda>b. b + demo_key_byte key) blk"

definition demo_decrypt :: "bytes \<Rightarrow> bytes \<Rightarrow> bytes" where
  "demo_decrypt key blk = map (\<lambda>b. b - demo_key_byte key) blk"

definition demo_md5 :: "bytes \<Rightarrow> bytes" where
  "demo_md5 buf = replicate 16 (foldl (+) 0 buf)"

definition demo_group_read ::
  "istream \<Rightarrow> nv_group option \<Rightarrow> group_type \<Rightarrow> 64 word \<Rightarrow> istream \<times> nv_group option" where
  "demo_group_read ist grp ty remaining =
     (case unread ist of
        s1 # s0 # m0 # m1 # m2 # m3 # v0 # v1 # rest \<Rightarrow>
          (let sz = unat s1 * 256 + unat s0 in
           if sz < 8 then (ist\<lparr>unread := rest, failbit := True\<rparr>, grp)
           else if length rest < sz - 8
           then (ist\<lparr>unread := [], failbit := True, eofbit := True\<rparr>, grp)
           else (ist\<lparr>unread := drop (sz - 8) rest\<rparr>,
                 Some \<lparr>g_magic = [m0, m1, m2, m3], g_version = [v0, v1],
                       g_name = map (\<lambda>b. char_of (unat b))
                                  (takeWhile (\<lambda>b. b \<noteq> 0) [m0, m1, m2, m3]),
                       g_bytes = sz, g_payload = take (sz - 8) rest\<rparr>))
      | _ \<Rightarrow> (ist\<lparr>unread := [], failbit := True, eofbit := True\<rparr>, grp))"

definition demo_group_write :: "nv_group \<Rightarrow> bytes" where
  "demo_group_write g =
     [word_of_nat (g_bytes g div 256), word_of_nat (g_bytes g)]
       @ g_magic g @ g_version g @ g_payload g"

definition demo_profiles :: "profile list" where
  "demo_profiles =
     [\<lparr>p_name = ''generic'', md5_key = [], default_keys = []\<rparr>,
      \<lparr>p_name = ''one'', md5_key = [1], default_keys = [[7]]\<rparr>,
      \<lparr>p_name = ''two'', md5_key = [2], default_keys = [[3], [5]]\<rparr>]"

definition demo_env :: env where
  "demo_env =
     \<lparr>aes_encrypt = demo_encrypt, aes_decrypt = demo_decrypt, md5 = demo_md5,
      nv_group_read = demo_group_read,
      settings_write = (\<lambda>gs. concat (map (\<lambda>(n, g). demo_group_write g) gs)),
      profile_list = demo_profiles\<rparr>"

section \<open>The block cipher wrapper\<close>

lemma length_blk16: "length (blk16 xs) = 16"
  by (simp add: blk16_def)

lemma length_crypt_blocks: "length (crypt_blocks f ibuf) = length ibuf"
proof (induction f ibuf rule: crypt_blocks.induct)
  case (1 f ibuf)
  show ?case
  proof (cases "16 \<le> length ibuf")
    case True
    with 1 show ?thesis
      by (subst crypt_blocks.simps) (simp add: length_blk16)
  next
    case False
    then show ?thesis
      by (subst crypt_blocks.simps) simp
  qed
qed

lemma crypt_blocks_short: "length ibuf < 16 \<Longrightarrow> crypt_blocks f ibuf = ibuf"
  by (subst crypt_blocks.simps) simp

lemma crypt_blocks_step:
  "16 \<le> length ibuf \<Longrightarrow>
   crypt_blocks f ibuf = blk16 (f (take 16 ibuf)) @ crypt_blocks f (drop 16 ibuf)"
  by (subst crypt_blocks.simps) simp

lemma crypt_blocks_block:
  "i < length ibuf div 16 \<Longrightarrow>
   take 16 (drop (16 * i) (crypt_blocks f ibuf)) = blk16 (f (take 16 (drop (16 * i) ibuf)))"
proof (induction i arbitrary: ibuf)
  case 0
  then have "16 \<le> length ibuf" by simp
  then show ?case
    by (simp add: crypt_blocks_step length_blk16)
next
  case (Suc i)
  then have len: "16 \<le> length ibuf" by simp
  from Suc.prems have "i < length (drop 16 ibuf) div 16" by simp
  from Suc.IH [OF this]
  have "take 16 (drop (16 * i) (crypt_blocks f (drop 16 ibuf)))
        = blk16 (f (take 16 (drop (16 * i) (drop 16 ibuf))))" .
  moreover have "drop (16 * Suc i) (crypt_blocks f ibuf)
        = drop (16 * i) (crypt_blocks f (drop 16 ibuf))"
    using len by (simp add: crypt_blocks_step length_blk16)
  moreover have "drop (16 * Suc i) ibuf = drop (16 * i) (drop 16 ibuf)"
    by (simp add: add.commute)
  ultimately show ?case by simp
qed

lemma crypt_blocks_tail:
  "drop (16 * (length ibuf div 16)) (crypt_blocks f ibuf) = drop (16 * (length ibuf div 16)) ibuf"
proof (induction f ibuf rule: crypt_blocks.induct)
  case (1 f ibuf)
  show ?case
  proof (cases "16 \<le> length ibuf")
    case True
    then have d: "length ibuf div 16 = Suc (length (drop 16 ibuf) div 16)"
      by (simp add: div_if)
    have "drop (16 * (length ibuf div 16)) (crypt_blocks f ibuf)
          = drop (16 * (length (drop 16 ibuf) div 16)) (crypt_blocks f (drop 16 ibuf))"
      using True by (simp add: d crypt_blocks_step length_blk16)
    also have "\<dots> = drop (16 * (length (drop 16 ibuf) div 16)) (drop 16 ibuf)"
      using 1 True by simp
    also have "\<dots> = drop (16 * (length ibuf div 16)) ibuf"
      by (simp add: d add.commute)
    finally show ?thesis .
  next
    case False
    then show ?thesis by (simp add: crypt_blocks_short)
  qed
qed

text \<open>
  C6. \<open>crypt\<close> works on 16-byte blocks and copies a rest of fewer than 16 bytes from the
  input to the output unchanged, whether it encrypts or decrypts; the output is as long
  as the processed input; encrypting with \<open>pad = true\<close> appends sixteen zero bytes to the
  plaintext before the blocks are processed, and decrypting never pads.
\<close>

theorem crypt_block_carry:
  "length (crypt E ibuf key dec pad) = length (crypt_input ibuf dec pad)
   \<and> (\<forall>i < length (crypt_input ibuf dec pad) div 16.
        take 16 (drop (16 * i) (crypt E ibuf key dec pad))
        = blk16 (crypt_cipher E key dec (take 16 (drop (16 * i) (crypt_input ibuf dec pad)))))
   \<and> drop (16 * (length (crypt_input ibuf dec pad) div 16)) (crypt E ibuf key dec pad)
       = drop (16 * (length (crypt_input ibuf dec pad) div 16)) (crypt_input ibuf dec pad)
   \<and> crypt_input ibuf False True = ibuf @ replicate 16 0
   \<and> crypt_input ibuf False False = ibuf
   \<and> crypt_input ibuf True pad = ibuf"
  by (simp add: crypt_def length_crypt_blocks crypt_blocks_block crypt_blocks_tail
      crypt_input_def)

theorem crypt_block_carry_witness:
  "(0::nat) < length (crypt_input [1,2,3,4,5,6,7,8,9,10,11,12,13,14,15,16,17,18,19,20] False False) div 16
   \<and> take 16 (drop (16 * 0)
         (crypt demo_env [1,2,3,4,5,6,7,8,9,10,11,12,13,14,15,16,17,18,19,20] [2] False False))
      = [3,4,5,6,7,8,9,10,11,12,13,14,15,16,17,18]
   \<and> drop 16 (crypt demo_env [1,2,3,4,5,6,7,8,9,10,11,12,13,14,15,16,17,18,19,20] [2] False False)
      = [17,18,19,20]
   \<and> length (crypt demo_env [1,2,3,4,5,6,7,8,9,10,11,12,13,14,15,16,17,18,19,20] [2] False True)
      = 36"
  using crypt_block_carry
          [of demo_env "[1,2,3,4,5,6,7,8,9,10,11,12,13,14,15,16,17,18,19,20]" "[2]" False False]
        crypt_block_carry
          [of demo_env "[1,2,3,4,5,6,7,8,9,10,11,12,13,14,15,16,17,18,19,20]" "[2]" False True]
  by (simp add: crypt_input_def crypt_cipher_def demo_env_def demo_encrypt_def
      demo_key_byte_def blk16_def)

section \<open>The permdyn container: checksum and layout\<close>

lemma all_ones32: "(0xffffffff :: 32 word) = - 1"
  by simp

lemma crc32_register: "crc32 buf = crc_32_register buf"
  by (simp add: crc32_def crc_32_checksum_def xor.assoc)

lemma crc32_not_checksum: "crc32 buf = NOT (crc_32_checksum buf)"
  unfolding crc32_def all_ones32 by simp

lemma length_u32_bytes: "length (u32_bytes w) = 4"
  by (simp add: u32_bytes_def)

lemma u32_of_u32_bytes:
  "u32_of (ucast (drop_bit 24 w)) (ucast (drop_bit 16 w)) (ucast (drop_bit 8 w)) (ucast w) = w"
proof (rule bit_word_eqI)
  fix n :: nat
  assume "n < LENGTH(32)"
  then consider "n < 8" | "8 \<le> n" "n < 16" | "16 \<le> n" "n < 24" | "24 \<le> n" "n < 32"
    by fastforce
  then show "bit (u32_of (ucast (drop_bit 24 w)) (ucast (drop_bit 16 w))
               (ucast (drop_bit 8 w)) (ucast w)) n = bit w n"
    by cases (auto simp add: u32_of_def bit_simps)
qed

lemma nv_u32_read_u32_bytes: "nv_u32_read (u32_bytes w @ rest) = Some (w, rest)"
  by (simp add: u32_bytes_def u32_of_u32_bytes)

lemma unat_plus16: "unat (sz :: 32 word) + 16 < 2 ^ 32 \<Longrightarrow> unat (sz + 16) = unat sz + 16"
  by (simp add: unat_word_ariths)

lemma permdyn_read_header:
  assumes "0xba \<le> length inp" and "\<forall>b \<in> set (take 0xba inp). b = 0xff"
    and "nv_u32_read (drop 0xba inp) = Some (sz, r1)"
    and "nv_u32_read r1 = Some (cks, r2)"
  shows "permdyn_read E c inp =
     map_option
       (map_outcome (\<lambda>c2. (c2,
          [if crc32 (take (unat (sz + 16)) r2) = cks
           then checksum_ok (crc32 (take (unat (sz + 16)) r2))
           else checksum_mismatch (crc32 (take (unat (sz + 16)) r2)) cks])))
       (settings_read E (c\<lparr>pm_size := sz, pm_checksum := cks\<rparr>) (ucast sz - 8)
          (in_stream (take (unat (sz + 16)) r2)))"
  using assms by (simp add: permdyn_read_def Let_def)

text \<open>
  A permdyn image with one group of nine bytes, read with the small instance: the four
  bytes \<open>a b c d\<close> are the stored checksum.
\<close>

lemma demo_permdyn_groups:
  "settings_read demo_env ((new_permdyn True False None)\<lparr>pm_size := 17, pm_checksum := k\<rparr>) 9
     (in_stream [0, 9, 97, 0, 0, 0, 0, 1, 5])
   = Some (Returned ((new_permdyn True False None)
        \<lparr>m_groups := [(''a'', \<lparr>g_magic = [97, 0, 0, 0], g_version = [0, 1], g_name = ''a'',
                              g_bytes = 9, g_payload = [5]\<rparr>)],
         pm_size := 17, pm_checksum := k\<rparr>))"
  by code_simp

lemma demo_permdyn_read:
  "permdyn_read demo_env (new_permdyn True False None)
     (replicate 186 0xff @ [0, 0, 0, 17, a, b, c, d] @ [0, 9, 97, 0, 0, 0, 0, 1, 5])
   = Some (Returned ((new_permdyn True False None)
        \<lparr>m_groups := [(''a'', \<lparr>g_magic = [97, 0, 0, 0], g_version = [0, 1], g_name = ''a'',
                              g_bytes = 9, g_payload = [5]\<rparr>)],
         pm_size := 17, pm_checksum := u32_of a b c d\<rparr>,
       [if crc32 [0, 9, 97, 0, 0, 0, 0, 1, 5] = u32_of a b c d
        then checksum_ok (crc32 [0, 9, 97, 0, 0, 0, 0, 1, 5])
        else checksum_mismatch (crc32 [0, 9, 97, 0, 0, 0, 0, 1, 5]) (u32_of a b c d)]))"
proof -
  let ?inp = "replicate 186 (0xff :: byte) @ [0, 0, 0, 17, a, b, c, d]
                @ [0, 9, 97, 0, 0, 0, 0, 1, 5]"
  have h1: "0xba \<le> length ?inp" by simp
  have h2: "\<forall>b \<in> set (take 0xba ?inp). b = 0xff" by simp
  have h3: "nv_u32_read (drop 0xba ?inp) = Some (17, [a, b, c, d] @ [0, 9, 97, 0, 0, 0, 0, 1, 5])"
    by (simp add: u32_of_def)
  have h4: "nv_u32_read ([a, b, c, d] @ [0, 9, 97, 0, 0, 0, 0, 1, 5])
            = Some (u32_of a b c d, [0, 9, 97, 0, 0, 0, 0, 1, 5])"
    by simp
  show ?thesis
    using permdyn_read_header [OF h1 h2 h3 h4, of demo_env "new_permdyn True False None"]
    by (simp add: demo_permdyn_groups)
qed

lemma demo_crc: "crc32 [0, 9, 97, 0, 0, 0, 0, 1, 5] = 0x420972E5"
  by code_simp

lemma demo_crc_standard: "crc_32_checksum [0, 9, 97, 0, 0, 0, 0, 1, 5] = 0xBDF68D1A"
  by code_simp

text \<open>
  The CRC-32 of the claim (polynomial \<open>0x04C11DB7\<close>, reflected, initial value and final
  XOR \<open>0xFFFFFFFF\<close>) is \<open>crc_32_checksum\<close>; its value on the ASCII digits \<open>123456789\<close> is
  the well-known \<open>0xCBF43926\<close>. \<open>permdyn::crc32\<close> returns the complement.
\<close>

lemma crc_32_check_value:
  "crc_32_checksum [0x31, 0x32, 0x33, 0x34, 0x35, 0x36, 0x37, 0x38, 0x39] = 0xCBF43926
   \<and> crc32 [0x31, 0x32, 0x33, 0x34, 0x35, 0x36, 0x37, 0x38, 0x39] = 0x340BC6D9"
  by code_simp

lemma map_outcome_comp: "map_outcome f (map_outcome g x) = map_outcome (f \<circ> g) x"
  by (cases x) simp_all

lemma map_option_outcome_comp:
  "map_option (map_outcome f) (map_option (map_outcome g) x) = map_option (map_outcome (f \<circ> g)) x"
  by (cases x) (simp_all add: map_outcome_comp)

lemma unat_plus16_mod: "unat (sz + 16 :: 32 word) = (unat sz + 16) mod 2 ^ 32"
  by (simp add: unat_word_ariths)

lemma permdyn_read_loop:
  assumes "0xba \<le> length inp" and "\<forall>b \<in> set (take 0xba inp). b = 0xff"
    and "nv_u32_read (drop 0xba inp) = Some (sz, r1)"
    and "nv_u32_read r1 = Some (cks, r2)"
  shows "permdyn_read E c inp =
     map_option
       (map_outcome (\<lambda>(ist, groups). (c\<lparr>m_groups := groups, pm_size := sz, pm_checksum := cks\<rparr>,
          [if crc32 (take (unat (sz + 16)) r2) = cks
           then checksum_ok (crc32 (take (unat (sz + 16)) r2))
           else checksum_mismatch (crc32 (take (unat (sz + 16)) r2)) cks])))
       (settings_read_loop E (m_permissive c) (m_type c) (in_stream (take (unat (sz + 16)) r2))
          None (ucast sz - 8) 1 (m_groups c))"
proof -
  define log where "log = [if crc32 (take (unat (sz + 16)) r2) = cks
           then checksum_ok (crc32 (take (unat (sz + 16)) r2))
           else checksum_mismatch (crc32 (take (unat (sz + 16)) r2)) cks]"
  have f: "(\<lambda>c2. (c2, log))
        \<circ> (\<lambda>(ist', groups). c\<lparr>pm_size := sz, pm_checksum := cks, m_groups := groups\<rparr>)
      = (\<lambda>(ist, groups). (c\<lparr>m_groups := groups, pm_size := sz, pm_checksum := cks\<rparr>, log))"
    by (auto simp add: fun_eq_iff)
  have "permdyn_read E c inp =
     map_option (map_outcome (\<lambda>c2. (c2, log)))
       (settings_read E (c\<lparr>pm_size := sz, pm_checksum := cks\<rparr>) (ucast sz - 8)
          (in_stream (take (unat (sz + 16)) r2)))"
    unfolding log_def by (rule permdyn_read_header [OF assms])
  also have "\<dots> = map_option
       (map_outcome (\<lambda>(ist, groups).
          (c\<lparr>m_groups := groups, pm_size := sz, pm_checksum := cks\<rparr>, log)))
       (settings_read_loop E (m_permissive c) (m_type c) (in_stream (take (unat (sz + 16)) r2))
          None (ucast sz - 8) 1 (m_groups c))"
    by (simp only: settings_read_def map_option_outcome_comp f) simp
  finally show ?thesis
    unfolding log_def .
qed


lemma demo_wrap_loop:
  "settings_read_loop demo_env True type_perm (in_stream [0, 9, 97, 0, 0, 0, 0, 1]) None
     0xFFFFFFF0 1 []
   = Some (Threw null_group (\<lparr>unread = [], failbit = True, eofbit = True\<rparr>, []))"
  by code_simp

lemma demo_wrap_crc:
  "crc_32_register (take 8 [0, 9, 97, 0, 0, 0, 0, 1, 5]) = 3152709932"
  by code_simp

lemma demo_wrap_read:
  "map_option (map_outcome snd)
     (permdyn_read demo_env (new_permdyn True False None)
        (replicate 186 0xff @ [0xff, 0xff, 0xff, 0xf8, 0x42, 0x09, 0x72, 0xE5]
           @ [0, 9, 97, 0, 0, 0, 0, 1, 5]))
   = Some (Threw null_group [checksum_mismatch 3152709932 0x420972E5])"
proof -
  let ?inp = "replicate 186 (0xff :: byte) @ [0xff, 0xff, 0xff, 0xf8, 0x42, 0x09, 0x72, 0xE5]
                @ [0, 9, 97, 0, 0, 0, 0, 1, 5]"
  have h1: "0xba \<le> length ?inp" by simp
  have h2: "\<forall>b \<in> set (take 0xba ?inp). b = 0xff" by simp
  have h3: "nv_u32_read (drop 0xba ?inp)
            = Some (0xfffffff8, [0x42, 0x09, 0x72, 0xE5] @ [0, 9, 97, 0, 0, 0, 0, 1, 5])"
    by (simp add: u32_of_def)
  have h4: "nv_u32_read ([0x42, 0x09, 0x72, 0xE5] @ [0, 9, 97, 0, 0, 0, 0, 1, 5])
            = Some (0x420972E5, [0, 9, 97, 0, 0, 0, 0, 1, 5])"
    by (simp add: u32_of_def)
  have u: "unat (0xfffffff8 + 16 :: 32 word) = 8" by simp
  have d: "(ucast (0xfffffff8 :: 32 word) :: 64 word) - 8 = 0xFFFFFFF0" by simp
  show ?thesis
    using permdyn_read_loop [OF h1 h2 h3 h4, of demo_env "new_permdyn True False None"]
      demo_wrap_loop demo_wrap_crc
    by (simp add: u d crc32_register new_permdyn_def)
qed


lemma demo_permdyn_loop:
  "settings_read_loop demo_env True type_perm (in_stream [0, 9, 97, 0, 0, 0, 0, 1, 5]) None 9 1 []
   = Some (Returned (\<lparr>unread = [], failbit = False, eofbit = False\<rparr>,
        [(''a'', \<lparr>g_magic = [97, 0, 0, 0], g_version = [0, 1], g_name = ''a'', g_bytes = 9,
                 g_payload = [5]\<rparr>)]))"
  by code_simp


text \<open>
  C1, as stated, fails. The body below has CRC-32 \<open>0xBDF68D1A\<close>. With that value in the
  crc field the code logs a mismatch; with \<open>0x420972E5\<close>, the value without the final
  XOR, it logs a match; in both cases \<open>m_checksum_valid\<close> stays false. With the size
  \<open>ff ff ff f8\<close> the sum \<open>size + 16\<close> is 8 on 32 bits: the nine bytes that follow are
  all of the first \<open>size + 16\<close> bytes and the crc field holds their value, but the code
  checksums eight bytes and logs a mismatch.
\<close>

theorem permdyn_read_checksum_counterexample:
  "crc_32_checksum [0, 9, 97, 0, 0, 0, 0, 1, 5] = 0xBDF68D1A
   \<and> map_option (map_outcome (pm_checksum_valid \<circ> fst))
        (permdyn_read demo_env (new_permdyn True False None)
           (replicate 186 0xff @ [0, 0, 0, 17, 0xBD, 0xF6, 0x8D, 0x1A]
              @ [0, 9, 97, 0, 0, 0, 0, 1, 5]))
       = Some (Returned False)
   \<and> map_option (map_outcome snd)
        (permdyn_read demo_env (new_permdyn True False None)
           (replicate 186 0xff @ [0, 0, 0, 17, 0xBD, 0xF6, 0x8D, 0x1A]
              @ [0, 9, 97, 0, 0, 0, 0, 1, 5]))
       = Some (Returned [checksum_mismatch 0x420972E5 0xBDF68D1A])
   \<and> map_option (map_outcome (pm_checksum_valid \<circ> fst))
        (permdyn_read demo_env (new_permdyn True False None)
           (replicate 186 0xff @ [0, 0, 0, 17, 0x42, 0x09, 0x72, 0xE5]
              @ [0, 9, 97, 0, 0, 0, 0, 1, 5]))
       = Some (Returned False)
   \<and> map_option (map_outcome snd)
        (permdyn_read demo_env (new_permdyn True False None)
           (replicate 186 0xff @ [0, 0, 0, 17, 0x42, 0x09, 0x72, 0xE5]
              @ [0, 9, 97, 0, 0, 0, 0, 1, 5]))
       = Some (Returned [checksum_ok 0x420972E5])
   \<and> crc_32_register [0, 9, 97, 0, 0, 0, 0, 1, 5] = 0x420972E5
   \<and> crc_32_register (take 8 [0, 9, 97, 0, 0, 0, 0, 1, 5]) = 3152709932
   \<and> map_option (map_outcome snd)
        (permdyn_read demo_env (new_permdyn True False None)
           (replicate 186 0xff @ [0xff, 0xff, 0xff, 0xf8, 0x42, 0x09, 0x72, 0xE5]
              @ [0, 9, 97, 0, 0, 0, 0, 1, 5]))
       = Some (Threw null_group [checksum_mismatch 3152709932 0x420972E5])"
  using demo_permdyn_read [of "0xBD" "0xF6" "0x8D" "0x1A"]
    demo_permdyn_read [of "0x42" "0x09" "0x72" "0xE5"]
    demo_wrap_read demo_wrap_crc demo_crc [unfolded crc32_register]
  by (simp add: demo_crc demo_crc_standard u32_of_def new_permdyn_def)


text \<open>
  C1, amended. After the \<open>0xFF\<close> fill, \<open>permdyn::read\<close> reads the big-endian u32 fields
  size and crc and computes, over the first \<open>(size + 16) mod 2^32\<close> bytes of the remaining
  input (the sum is a 32-bit number), the CRC-32 register (polynomial \<open>0x04C11DB7\<close>,
  reflected input and output, initial value \<open>0xFFFFFFFF\<close>) with no final XOR, which is
  the complement of the CRC-32; it logs a match when this value equals the crc field
  and a mismatch otherwise, and the group stream of these bytes is parsed in either
  case.
\<close>

theorem permdyn_read_checksum:
  assumes "0xba \<le> length inp" and "\<forall>b \<in> set (take 0xba inp). b = 0xff"
    and "nv_u32_read (drop 0xba inp) = Some (sz, r1)"
    and "nv_u32_read r1 = Some (cks, r2)"
  shows "map_option (map_outcome snd) (permdyn_read E c inp)
      = map_option
          (map_outcome (\<lambda>s.
             [if crc_32_register (take ((unat sz + 16) mod 2 ^ 32) r2) = cks
              then checksum_ok (crc_32_register (take ((unat sz + 16) mod 2 ^ 32) r2))
              else checksum_mismatch (crc_32_register (take ((unat sz + 16) mod 2 ^ 32) r2)) cks]))
          (settings_read_loop E (m_permissive c) (m_type c)
             (in_stream (take ((unat sz + 16) mod 2 ^ 32) r2)) None (ucast sz - 8) 1 (m_groups c))
    \<and> map_option (map_outcome (m_groups \<circ> fst)) (permdyn_read E c inp)
      = map_option (map_outcome snd)
          (settings_read_loop E (m_permissive c) (m_type c)
             (in_stream (take ((unat sz + 16) mod 2 ^ 32) r2)) None (ucast sz - 8) 1 (m_groups c))
    \<and> map_option (map_outcome (pm_size \<circ> fst)) (permdyn_read E c inp)
      = map_option (map_outcome (\<lambda>s. sz))
          (settings_read_loop E (m_permissive c) (m_type c)
             (in_stream (take ((unat sz + 16) mod 2 ^ 32) r2)) None (ucast sz - 8) 1 (m_groups c))
    \<and> map_option (map_outcome (pm_checksum \<circ> fst)) (permdyn_read E c inp)
      = map_option (map_outcome (\<lambda>s. cks))
          (settings_read_loop E (m_permissive c) (m_type c)
             (in_stream (take ((unat sz + 16) mod 2 ^ 32) r2)) None (ucast sz - 8) 1 (m_groups c))
    \<and> crc_32_register (take ((unat sz + 16) mod 2 ^ 32) r2)
      = NOT (crc_32_checksum (take ((unat sz + 16) mod 2 ^ 32) r2))"
proof -
  note r = permdyn_read_loop [OF assms, of E c, unfolded crc32_register unat_plus16_mod]
  have a1: "map_option (map_outcome snd) (permdyn_read E c inp)
      = map_option
          (map_outcome (\<lambda>s.
             [if crc_32_register (take ((unat sz + 16) mod 2 ^ 32) r2) = cks
              then checksum_ok (crc_32_register (take ((unat sz + 16) mod 2 ^ 32) r2))
              else checksum_mismatch (crc_32_register (take ((unat sz + 16) mod 2 ^ 32) r2)) cks]))
          (settings_read_loop E (m_permissive c) (m_type c)
             (in_stream (take ((unat sz + 16) mod 2 ^ 32) r2)) None (ucast sz - 8) 1 (m_groups c))"
    unfolding r map_option_outcome_comp
    by (rule arg_cong [where f = "\<lambda>f. map_option (map_outcome f) _"])
      (simp add: fun_eq_iff split_beta)
  have a2: "map_option (map_outcome (m_groups \<circ> fst)) (permdyn_read E c inp)
      = map_option (map_outcome snd)
          (settings_read_loop E (m_permissive c) (m_type c)
             (in_stream (take ((unat sz + 16) mod 2 ^ 32) r2)) None (ucast sz - 8) 1 (m_groups c))"
    unfolding r map_option_outcome_comp
    by (rule arg_cong [where f = "\<lambda>f. map_option (map_outcome f) _"])
      (simp add: fun_eq_iff split_beta)
  have a3: "map_option (map_outcome (pm_size \<circ> fst)) (permdyn_read E c inp)
      = map_option (map_outcome (\<lambda>s. sz))
          (settings_read_loop E (m_permissive c) (m_type c)
             (in_stream (take ((unat sz + 16) mod 2 ^ 32) r2)) None (ucast sz - 8) 1 (m_groups c))"
    unfolding r map_option_outcome_comp
    by (rule arg_cong [where f = "\<lambda>f. map_option (map_outcome f) _"])
      (simp add: fun_eq_iff split_beta)
  have a4: "map_option (map_outcome (pm_checksum \<circ> fst)) (permdyn_read E c inp)
      = map_option (map_outcome (\<lambda>s. cks))
          (settings_read_loop E (m_permissive c) (m_type c)
             (in_stream (take ((unat sz + 16) mod 2 ^ 32) r2)) None (ucast sz - 8) 1 (m_groups c))"
    unfolding r map_option_outcome_comp
    by (rule arg_cong [where f = "\<lambda>f. map_option (map_outcome f) _"])
      (simp add: fun_eq_iff split_beta)
  have a5: "crc_32_register (take ((unat sz + 16) mod 2 ^ 32) r2)
      = NOT (crc_32_checksum (take ((unat sz + 16) mod 2 ^ 32) r2))"
    using crc32_register crc32_not_checksum by metis
  show ?thesis
    by (intro conjI) (fact a1, fact a2, fact a3, fact a4, fact a5)
qed

theorem permdyn_read_checksum_witness:
  "map_option (map_outcome snd)
     (permdyn_read demo_env (new_permdyn True False None)
        (replicate 186 0xff @ [0, 0, 0, 17, 0x42, 0x09, 0x72, 0xE5]
           @ [0, 9, 97, 0, 0, 0, 0, 1, 5]))
   = Some (Returned [checksum_ok 0x420972E5])
   \<and> map_option (map_outcome (m_groups \<circ> fst))
     (permdyn_read demo_env (new_permdyn True False None)
        (replicate 186 0xff @ [0, 0, 0, 17, 0x42, 0x09, 0x72, 0xE5]
           @ [0, 9, 97, 0, 0, 0, 0, 1, 5]))
   = Some (Returned [(''a'', \<lparr>g_magic = [97, 0, 0, 0], g_version = [0, 1], g_name = ''a'',
                             g_bytes = 9, g_payload = [5]\<rparr>)])"
proof -
  let ?inp = "replicate 186 (0xff :: byte) @ [0, 0, 0, 17, 0x42, 0x09, 0x72, 0xE5]
                @ [0, 9, 97, 0, 0, 0, 0, 1, 5]"
  have h1: "0xba \<le> length ?inp" by simp
  have h2: "\<forall>b \<in> set (take 0xba ?inp). b = 0xff" by simp
  have h3: "nv_u32_read (drop 0xba ?inp)
            = Some (17, [0x42, 0x09, 0x72, 0xE5] @ [0, 9, 97, 0, 0, 0, 0, 1, 5])"
    by (simp add: u32_of_def)
  have h4: "nv_u32_read ([0x42, 0x09, 0x72, 0xE5] @ [0, 9, 97, 0, 0, 0, 0, 1, 5])
            = Some (0x420972E5, [0, 9, 97, 0, 0, 0, 0, 1, 5])"
    by (simp add: u32_of_def)
  have crc: "crc_32_register [0, 9, 97, 0, 0, 0, 0, 1, 5] = 0x420972E5"
    using demo_crc by (simp add: crc32_register)
  have d: "(ucast (17 :: 32 word) :: 64 word) - 8 = 9" by simp
  note t = permdyn_read_checksum [OF h1 h2 h3 h4, of demo_env "new_permdyn True False None"]
  from t [THEN conjunct1] t [THEN conjunct2, THEN conjunct1] show ?thesis
    using demo_permdyn_loop crc
    by (simp add: d new_permdyn_def)
qed

text \<open>
  C9, as stated, fails: for the body \<open>00 09 61 00 00 00 00 01 05\<close>, whose CRC-32 is
  \<open>BD F6 8D 1A\<close>, the four bytes written after the size are \<open>42 09 72 E5\<close>.
\<close>

theorem permdyn_write_crc_counterexample:
  "settings_write demo_env
     [(''a'', \<lparr>g_magic = [97, 0, 0, 0], g_version = [0, 1], g_name = ''a'', g_bytes = 9,
              g_payload = [5]\<rparr>)] = [0, 9, 97, 0, 0, 0, 0, 1, 5]
   \<and> u32_bytes (crc_32_checksum [0, 9, 97, 0, 0, 0, 0, 1, 5]) = [0xBD, 0xF6, 0x8D, 0x1A]
   \<and> take 4 (drop 206 (permdyn_write demo_env
        ((new_permdyn True False None)
           \<lparr>m_groups := [(''a'', \<lparr>g_magic = [97, 0, 0, 0], g_version = [0, 1], g_name = ''a'',
                                 g_bytes = 9, g_payload = [5]\<rparr>)]\<rparr>)))
       = [0x42, 0x09, 0x72, 0xE5]"
  by code_simp

text \<open>
  C9, amended. \<open>permdyn::write\<close> emits exactly 202 bytes \<open>0xFF\<close>, then the big-endian u32
  \<open>8 + len(body)\<close>, then the big-endian u32 of \<open>permdyn::crc32(body)\<close>, which is the
  CRC-32 register of the body without the final XOR (the complement of its CRC-32), then
  the body, and nothing else; nothing is encrypted and nothing is padded.
\<close>

theorem permdyn_write_layout:
  "permdyn_write E c =
     replicate 202 0xff
       @ u32_bytes (word_of_nat (8 + length (settings_write E (m_groups c))))
       @ u32_bytes (crc_32_register (settings_write E (m_groups c)))
       @ settings_write E (m_groups c)
   \<and> crc_32_register (settings_write E (m_groups c))
       = NOT (crc_32_checksum (settings_write E (m_groups c)))
   \<and> length (permdyn_write E c) = 202 + 4 + 4 + length (settings_write E (m_groups c))
   \<and> nv_u32_read (drop 202 (permdyn_write E c))
       = Some (word_of_nat (8 + length (settings_write E (m_groups c))),
               u32_bytes (crc_32_register (settings_write E (m_groups c)))
                 @ settings_write E (m_groups c))"
  using crc32_register crc32_not_checksum
  by (simp add: permdyn_write_def Let_def length_u32_bytes nv_u32_read_u32_bytes)

section \<open>The gwsettings container: profile, key search and size check\<close>

lemma length_s_magic: "length s_magic = 74"
  by (simp add: s_magic_def)

lemma find_unique:
  assumes "p \<in> set ps" and "P p" and "\<forall>q \<in> set ps. P q \<longrightarrow> q = p"
  shows "find P ps = Some p"
proof (cases "find P ps")
  case None
  with assms(1,2) show ?thesis by (auto simp: find_None_iff)
next
  case (Some x)
  then have "x \<in> set ps" and "P x"
    by (auto simp: find_Some_iff)
  with assms(3) Some show ?thesis by auto
qed

lemma detect_profile_find:
  "detect_profile E c buf ps =
     (case find (\<lambda>p. calc_checksum E buf (Some p) = m_checksum c) ps of
        Some p \<Rightarrow> c\<lparr>m_checksum_valid := True, m_is_auto_profile := True, m_profile := Some p\<rparr>
      | None \<Rightarrow> if ps = [] then c else c\<lparr>m_checksum_valid := False\<rparr>)"
proof (induction ps arbitrary: c)
  case Nil
  show ?case by simp
next
  case (Cons p ps)
  show ?case
  proof (cases "calc_checksum E buf (Some p) = m_checksum c")
    case True
    then show ?thesis by (simp add: validate_checksum_def)
  next
    case False
    then have "detect_profile E c buf (p # ps)
               = detect_profile E (c\<lparr>m_checksum_valid := False\<rparr>) buf ps"
      by (auto simp add: validate_checksum_def Let_def)
    then show ?thesis
      using False by (simp add: Cons.IH split: option.split)
  qed
qed

text \<open>
  C5. When no profile was supplied, \<open>validate_checksum_and_detect_profile\<close> goes through
  the registry in its order and takes the first profile \<open>p\<close> for which the MD5 of the
  buffer followed by \<open>p\<close>'s key is the candidate checksum; it records \<open>p\<close>, the automatic
  detection and the valid checksum. When exactly one profile of the registry matches,
  every registry with the same profiles, in whatever order, yields that profile.
\<close>

theorem detect_profile_first_match:
  assumes "m_profile c = None"
  shows "validate_checksum_and_detect_profile E c buf =
      (case find (\<lambda>p. blk16 (md5 E (buf @ md5_key p)) = m_checksum c) (profile_list E) of
         Some p \<Rightarrow> c\<lparr>m_checksum_valid := True, m_is_auto_profile := True, m_profile := Some p\<rparr>
       | None \<Rightarrow> if profile_list E = [] then c else c\<lparr>m_checksum_valid := False\<rparr>)
    \<and> (\<forall>E' p. set (profile_list E') = set (profile_list E) \<and> md5 E' = md5 E
           \<and> p \<in> set (profile_list E) \<and> blk16 (md5 E (buf @ md5_key p)) = m_checksum c
           \<and> (\<forall>q \<in> set (profile_list E).
                  blk16 (md5 E (buf @ md5_key q)) = m_checksum c \<longrightarrow> q = p)
         \<longrightarrow> validate_checksum_and_detect_profile E' c buf
             = c\<lparr>m_checksum_valid := True, m_is_auto_profile := True, m_profile := Some p\<rparr>)"
proof (intro conjI allI impI)
  show "validate_checksum_and_detect_profile E c buf =
      (case find (\<lambda>p. blk16 (md5 E (buf @ md5_key p)) = m_checksum c) (profile_list E) of
         Some p \<Rightarrow> c\<lparr>m_checksum_valid := True, m_is_auto_profile := True, m_profile := Some p\<rparr>
       | None \<Rightarrow> if profile_list E = [] then c else c\<lparr>m_checksum_valid := False\<rparr>)"
    using assms
    by (simp add: validate_checksum_and_detect_profile_def detect_profile_find calc_checksum_def)
next
  fix E' :: env and p :: profile
  assume a: "set (profile_list E') = set (profile_list E) \<and> md5 E' = md5 E
           \<and> p \<in> set (profile_list E) \<and> blk16 (md5 E (buf @ md5_key p)) = m_checksum c
           \<and> (\<forall>q \<in> set (profile_list E).
                  blk16 (md5 E (buf @ md5_key q)) = m_checksum c \<longrightarrow> q = p)"
  then have "find (\<lambda>p. calc_checksum E' buf (Some p) = m_checksum c) (profile_list E') = Some p"
    by (intro find_unique) (auto simp: calc_checksum_def)
  then show "validate_checksum_and_detect_profile E' c buf
             = c\<lparr>m_checksum_valid := True, m_is_auto_profile := True, m_profile := Some p\<rparr>"
    using assms
    by (simp add: validate_checksum_and_detect_profile_def detect_profile_find)
qed

theorem detect_profile_first_match_witness:
  "m_profile (new_gwsettings True (replicate 16 8) None) = None
   \<and> validate_checksum_and_detect_profile demo_env (new_gwsettings True (replicate 16 8) None)
        [1, 2, 3]
      = (new_gwsettings True (replicate 16 8) None)
          \<lparr>m_checksum_valid := True, m_is_auto_profile := True,
           m_profile := Some \<lparr>p_name = ''two'', md5_key = [2], default_keys = [[3], [5]]\<rparr>\<rparr>
   \<and> validate_checksum_and_detect_profile (demo_env\<lparr>profile_list := rev demo_profiles\<rparr>)
        (new_gwsettings True (replicate 16 8) None) [1, 2, 3]
      = (new_gwsettings True (replicate 16 8) None)
          \<lparr>m_checksum_valid := True, m_is_auto_profile := True,
           m_profile := Some \<lparr>p_name = ''two'', md5_key = [2], default_keys = [[3], [5]]\<rparr>\<rparr>"
proof -
  let ?c = "new_gwsettings True (replicate 16 8) None"
  let ?p = "\<lparr>p_name = ''two'', md5_key = [2], default_keys = [[3], [5]]\<rparr>"
  have h: "m_profile ?c = None" by (simp add: new_gwsettings_def)
  note t = detect_profile_first_match [OF h, of demo_env "[1, 2, 3]"]
  have a: "validate_checksum_and_detect_profile demo_env ?c [1, 2, 3]
           = ?c\<lparr>m_checksum_valid := True, m_is_auto_profile := True, m_profile := Some ?p\<rparr>"
    using t [THEN conjunct1]
    by (simp add: demo_env_def demo_profiles_def demo_md5_def blk16_def new_gwsettings_def)
  have b: "validate_checksum_and_detect_profile (demo_env\<lparr>profile_list := rev demo_profiles\<rparr>)
             ?c [1, 2, 3]
           = ?c\<lparr>m_checksum_valid := True, m_is_auto_profile := True, m_profile := Some ?p\<rparr>"
  proof -
    have "set (profile_list (demo_env\<lparr>profile_list := rev demo_profiles\<rparr>))
            = set (profile_list demo_env)
          \<and> md5 (demo_env\<lparr>profile_list := rev demo_profiles\<rparr>) = md5 demo_env
          \<and> ?p \<in> set (profile_list demo_env)
          \<and> blk16 (md5 demo_env ([1, 2, 3] @ md5_key ?p)) = m_checksum ?c
          \<and> (\<forall>q \<in> set (profile_list demo_env).
                 blk16 (md5 demo_env ([1, 2, 3] @ md5_key q)) = m_checksum ?c \<longrightarrow> q = ?p)"
      by (simp add: demo_env_def)
        (simp add: demo_profiles_def demo_md5_def blk16_def new_gwsettings_def)
    then show ?thesis
      by (rule t [THEN conjunct2, rule_format])
  qed
  from h a b show ?thesis by simp
qed

lemma decrypt_cases:
  "decrypt E c buf key =
     (if trial_succeeds E buf key
      then (True, crypt E buf key True False, c\<lparr>m_magic_valid := True\<rparr>)
      else (False, buf, c))"
  by (simp add: decrypt_def trial_succeeds_def Let_def)

lemma decrypt_with_keys_find:
  "decrypt_with_keys E c buf ks =
     (case find (trial_succeeds E buf) ks of
        None \<Rightarrow> (False, buf, c)
      | Some k \<Rightarrow> (True, crypt E buf k True False, c\<lparr>m_magic_valid := True, m_key := k\<rparr>))"
  by (induction ks) (simp_all add: decrypt_cases)

lemma find_append_cases:
  "find P (xs @ ys) = (case find P xs of None \<Rightarrow> find P ys | Some x \<Rightarrow> Some x)"
  by (induction xs) simp_all

lemma decrypt_with_profiles_find:
  "decrypt_with_profiles E c buf ps =
     (case find (trial_succeeds E buf) (concat (map default_keys ps)) of
        None \<Rightarrow> (False, buf, c)
      | Some k \<Rightarrow> (True, crypt E buf k True False, c\<lparr>m_magic_valid := True, m_key := k\<rparr>))"
  by (induction ps)
    (simp_all add: decrypt_with_profile_def decrypt_with_keys_find find_append_cases
      split: option.split)

lemma decrypt_and_detect_profile_find:
  "decrypt_and_detect_profile E c buf =
     (case find (trial_succeeds E buf) (trial_keys E c) of
        None \<Rightarrow> (False, buf, c)
      | Some k \<Rightarrow> (True, crypt E buf k True False, c\<lparr>m_magic_valid := True, m_key := k\<rparr>))"
  by (simp add: decrypt_and_detect_profile_def trial_keys_def decrypt_cases
      decrypt_with_profile_def decrypt_with_keys_find decrypt_with_profiles_find
      split: option.split)

lemma validate_keeps:
  "m_key (validate_checksum_and_detect_profile E c buf) = m_key c
   \<and> m_groups (validate_checksum_and_detect_profile E c buf) = m_groups c
   \<and> m_padded (validate_checksum_and_detect_profile E c buf) = m_padded c
   \<and> m_encrypted (validate_checksum_and_detect_profile E c buf) = m_encrypted c"
  by (simp add: validate_checksum_and_detect_profile_def validate_checksum_def
      detect_profile_find split: option.split)

lemma gwsettings_read_failed_search:
  assumes "take 74 buf \<noteq> s_magic"
    and "find (trial_succeeds E buf)
           (trial_keys E (validate_checksum_and_detect_profile E c buf)) = None"
  shows "gwsettings_read E c buf =
           Some (Returned ((validate_checksum_and_detect_profile E c buf)
                    \<lparr>m_magic_valid := False, m_encrypted := True\<rparr>))"
proof -
  let ?c1 = "validate_checksum_and_detect_profile E c buf"
  have k: "trial_keys E (?c1\<lparr>m_magic_valid := False\<rparr>) = trial_keys E ?c1"
    by (simp add: trial_keys_def)
  show ?thesis
    using assms
    by (simp add: gwsettings_read_def Let_def length_s_magic decrypt_and_detect_profile_find k)
qed

lemma gwsettings_read_found_key:
  assumes "take 74 buf \<noteq> s_magic"
    and "find (trial_succeeds E buf)
           (trial_keys E (validate_checksum_and_detect_profile E c buf)) = Some k"
  shows "gwsettings_read E c buf =
           read_body E ((validate_checksum_and_detect_profile E c buf)
                          \<lparr>m_magic_valid := True, m_key := k\<rparr>)
             (crypt E buf k True False)"
proof -
  let ?c1 = "validate_checksum_and_detect_profile E c buf"
  have k: "trial_keys E (?c1\<lparr>m_magic_valid := False\<rparr>) = trial_keys E ?c1"
    by (simp add: trial_keys_def)
  show ?thesis
    using assms
    by (simp add: gwsettings_read_def Let_def length_s_magic decrypt_and_detect_profile_find k)
qed

lemma gwsettings_read_cleartext:
  assumes "take 74 buf = s_magic"
  shows "gwsettings_read E c buf =
           read_body E ((validate_checksum_and_detect_profile E c buf)\<lparr>m_magic_valid := True\<rparr>) buf"
  using assms by (simp add: gwsettings_read_def Let_def length_s_magic)

text \<open>
  The key search of an object, whatever its \<open>m_key\<close>: when the buffer does not start
  with the magic, the keys are tried in the order of \<open>trial_keys\<close>, and the first key
  whose decryption starts with the 74 bytes of the magic wins: the buffer becomes the
  decryption, the key is recorded and \<open>m_magic_valid\<close> is set. When no key succeeds,
  \<open>gwsettings::read\<close> returns without throwing, with \<open>m_encrypted\<close> set and the group list
  untouched.
\<close>

lemma decrypt_trial_order:
  "decrypt_and_detect_profile E c buf =
     (case find (trial_succeeds E buf) (trial_keys E c) of
        None \<Rightarrow> (False, buf, c)
      | Some k \<Rightarrow> (True, crypt E buf k True False, c\<lparr>m_magic_valid := True, m_key := k\<rparr>))
   \<and> (take 74 buf \<noteq> s_magic
        \<and> find (trial_succeeds E buf)
             (trial_keys E (validate_checksum_and_detect_profile E c buf)) = None
      \<longrightarrow> (\<exists>c'. gwsettings_read E c buf = Some (Returned c') \<and> m_encrypted c'
                 \<and> \<not> m_magic_valid c' \<and> m_groups c' = m_groups c))
   \<and> (\<forall>k. take 74 buf \<noteq> s_magic
        \<and> find (trial_succeeds E buf)
             (trial_keys E (validate_checksum_and_detect_profile E c buf)) = Some k
      \<longrightarrow> gwsettings_read E c buf =
            read_body E ((validate_checksum_and_detect_profile E c buf)
                           \<lparr>m_magic_valid := True, m_key := k\<rparr>)
              (crypt E buf k True False))"
  using validate_keeps [of E c buf]
  by (auto simp add: decrypt_and_detect_profile_find gwsettings_read_failed_search
      gwsettings_read_found_key)

text \<open>
  C10. A decryption trial that fails changes nothing: \<open>decrypt\<close> replaces the buffer and
  sets \<open>m_magic_valid\<close> only when the decryption starts with the magic,
  \<open>decrypt_with_profile\<close> records a key only together with a success, and a search in
  which every trial fails returns the buffer and the object as they were, so the buffer
  still is the ciphertext and the key is the one from before the search (none, for a
  new object).
\<close>

theorem failed_trials_leave_state:
  "(\<not> fst (decrypt E c buf key) \<longrightarrow> decrypt E c buf key = (False, buf, c))
   \<and> (fst (decrypt E c buf key) \<longrightarrow>
        take 74 (crypt E buf key True False) = s_magic
        \<and> decrypt E c buf key = (True, crypt E buf key True False, c\<lparr>m_magic_valid := True\<rparr>))
   \<and> (\<not> fst (decrypt_with_profile E c buf p) \<longrightarrow> decrypt_with_profile E c buf p = (False, buf, c))
   \<and> (fst (decrypt_with_profile E c buf p) \<longrightarrow>
        (\<exists>k \<in> set (default_keys p). take 74 (crypt E buf k True False) = s_magic
           \<and> decrypt_with_profile E c buf p
               = (True, crypt E buf k True False, c\<lparr>m_magic_valid := True, m_key := k\<rparr>)))
   \<and> (\<not> fst (decrypt_and_detect_profile E c buf) \<longrightarrow>
        decrypt_and_detect_profile E c buf = (False, buf, c))
   \<and> (take 74 buf \<noteq> s_magic
        \<and> \<not> fst (decrypt_and_detect_profile E
                   ((validate_checksum_and_detect_profile E c buf)\<lparr>m_magic_valid := False\<rparr>) buf)
      \<longrightarrow> (\<exists>c'. gwsettings_read E c buf = Some (Returned c') \<and> m_key c' = m_key c
                 \<and> m_encrypted c'))"
proof -
  have a1: "\<not> fst (decrypt E c buf key) \<longrightarrow> decrypt E c buf key = (False, buf, c)"
    by (simp add: decrypt_cases)
  have a2: "fst (decrypt E c buf key) \<longrightarrow>
        take 74 (crypt E buf key True False) = s_magic
        \<and> decrypt E c buf key = (True, crypt E buf key True False, c\<lparr>m_magic_valid := True\<rparr>)"
    by (simp add: decrypt_cases trial_succeeds_def)
  have a3: "\<not> fst (decrypt_with_profile E c buf p) \<longrightarrow>
        decrypt_with_profile E c buf p = (False, buf, c)"
    by (simp add: decrypt_with_profile_def decrypt_with_keys_find split: option.splits)
  have a4: "fst (decrypt_with_profile E c buf p) \<longrightarrow>
        (\<exists>k \<in> set (default_keys p). take 74 (crypt E buf k True False) = s_magic
           \<and> decrypt_with_profile E c buf p
               = (True, crypt E buf k True False, c\<lparr>m_magic_valid := True, m_key := k\<rparr>))"
  proof
    assume "fst (decrypt_with_profile E c buf p)"
    then obtain k where k: "find (trial_succeeds E buf) (default_keys p) = Some k"
      by (auto simp add: decrypt_with_profile_def decrypt_with_keys_find split: option.splits)
    then have "k \<in> set (default_keys p)" and "trial_succeeds E buf k"
      by (auto simp: find_Some_iff)
    with k show "\<exists>k \<in> set (default_keys p). take 74 (crypt E buf k True False) = s_magic
           \<and> decrypt_with_profile E c buf p
               = (True, crypt E buf k True False, c\<lparr>m_magic_valid := True, m_key := k\<rparr>)"
      by (auto simp add: decrypt_with_profile_def decrypt_with_keys_find
          trial_succeeds_def)
  qed
  have a5: "\<not> fst (decrypt_and_detect_profile E c buf) \<longrightarrow>
        decrypt_and_detect_profile E c buf = (False, buf, c)"
    by (simp add: decrypt_and_detect_profile_find split: option.splits)
  have a6: "take 74 buf \<noteq> s_magic
        \<and> \<not> fst (decrypt_and_detect_profile E
                   ((validate_checksum_and_detect_profile E c buf)\<lparr>m_magic_valid := False\<rparr>) buf)
      \<longrightarrow> (\<exists>c'. gwsettings_read E c buf = Some (Returned c') \<and> m_key c' = m_key c
                 \<and> m_encrypted c')"
  proof
    assume that: "take 74 buf \<noteq> s_magic
        \<and> \<not> fst (decrypt_and_detect_profile E
                   ((validate_checksum_and_detect_profile E c buf)\<lparr>m_magic_valid := False\<rparr>) buf)"
    have k: "trial_keys E ((validate_checksum_and_detect_profile E c buf)\<lparr>m_magic_valid := False\<rparr>)
             = trial_keys E (validate_checksum_and_detect_profile E c buf)"
      by (simp add: trial_keys_def)
    from that have "find (trial_succeeds E buf)
           (trial_keys E (validate_checksum_and_detect_profile E c buf)) = None"
      by (simp add: decrypt_and_detect_profile_find k split: option.splits)
    with that show "\<exists>c'. gwsettings_read E c buf = Some (Returned c') \<and> m_key c' = m_key c
                 \<and> m_encrypted c'"
      using validate_keeps [of E c buf]
      by (simp add: gwsettings_read_failed_search)
  qed
  show ?thesis
    by (intro conjI) (fact a1, fact a2, fact a3, fact a4, fact a5, fact a6)
qed

lemma settings_read_state:
  "settings_read E c d ist = Some r \<Longrightarrow> \<exists>gs. state_of r = c\<lparr>m_groups := gs\<rparr>"
proof -
  assume "settings_read E c d ist = Some r"
  then obtain a :: "(istream \<times> (string \<times> nv_group) list) outcome"
    where r: "r = map_outcome (\<lambda>(ist', groups). c\<lparr>m_groups := groups\<rparr>) a"
    by (auto simp add: settings_read_def)
  show ?thesis
    unfolding r by (cases a) (auto split: prod.splits)
qed

lemma plus16_eq:
  assumes "16 \<le> n" and "n < 2 ^ 32"
  shows "(unat ((w :: 32 word) + 16) = n) = (unat w + 16 = n)"
proof -
  have "unat w < 2 ^ LENGTH(32)" by (rule unsigned_less)
  then have w: "unat w < 2 ^ 32" by simp
  have "unat (w + 16) = (unat w + 16) mod 2 ^ 32"
    by (simp add: unat_word_ariths)
  moreover have "((unat w + 16) mod 2 ^ 32 = n) = (unat w + 16 = n)"
  proof (cases "unat w + 16 < 2 ^ 32")
    case True
    then show ?thesis by simp
  next
    case False
    then have "(unat w + 16) mod 2 ^ 32 = unat w + 16 - 2 ^ 32"
      using w by (simp add: mod_if)
    with False w assms show ?thesis by auto
  qed
  ultimately show ?thesis by simp
qed

lemma check_size_flags:
  assumes "16 \<le> length buf" and "length buf < 2 ^ 32"
  shows "m_size_valid (check_size c buf)
           = (unat (m_size c) = length buf \<or> unat (m_size c) + 16 = length buf)"
    and "m_padded (check_size c buf) = (m_padded c \<or> unat (m_size c) + 16 = length buf)"
    and "m_size (check_size c buf) = m_size c"
    and "m_profile (check_size c buf) = m_profile c"
  using plus16_eq [OF assms, of "m_size c"]
  by (auto simp add: check_size_def Let_def)

lemma read_body_fields:
  assumes "nv_version_read (drop 74 buf) = Some (ver, r1)" and "nv_u32_read r1 = Some (sz, r2)"
  shows "read_body E c buf =
           settings_read E (check_size (c\<lparr>m_version := ver, m_size := sz\<rparr>) buf)
             (ucast sz - 80) (in_stream r2)"
  using assms by (simp add: read_body_def length_s_magic Let_def check_size_def)

lemma gwsettings_write_profile:
  "m_profile c = Some p \<Longrightarrow>
   gwsettings_write E c =
     Inr (calc_checksum E (write_buf E c) (Some p) @ write_buf E c
            @ (if m_padded c then replicate 16 0 else []))"
  by (simp add: gwsettings_write_def)

text \<open>
  The size check and the trailer. After the magic, \<open>gwsettings::read\<close> sets
  \<open>m_size_valid\<close> when the stored size is the length of the buffer; when instead the
  size plus 16 is that length it sets \<open>m_padded\<close> and \<open>m_size_valid\<close>; otherwise
  \<open>m_size_valid\<close> stays false, and in every case the groups are parsed.
  \<open>gwsettings::write\<close> appends sixteen zero bytes exactly when \<open>m_padded\<close> is set.
  (Buffers are shorter than 4 GiB, the range of the size field.)
\<close>

lemma size_check_and_trailer:
  assumes "16 \<le> length buf" and "length buf < 2 ^ 32"
  shows "m_size_valid (check_size c buf)
           = (unat (m_size c) = length buf \<or> unat (m_size c) + 16 = length buf)
    \<and> m_padded (check_size c buf) = (m_padded c \<or> unat (m_size c) + 16 = length buf)
    \<and> (\<forall>ver r1 sz r2.
          nv_version_read (drop 74 buf) = Some (ver, r1) \<and> nv_u32_read r1 = Some (sz, r2)
          \<longrightarrow> read_body E c buf =
                settings_read E (check_size (c\<lparr>m_version := ver, m_size := sz\<rparr>) buf)
                  (ucast sz - 80) (in_stream r2))
    \<and> (\<forall>p. m_profile c = Some p
          \<longrightarrow> gwsettings_write E c =
                Inr (calc_checksum E (write_buf E c) (Some p) @ write_buf E c
                       @ (if m_padded c then replicate 16 0 else [])))
    \<and> (\<forall>ver r1 sz r2 c' p.
          nv_version_read (drop 74 buf) = Some (ver, r1) \<and> nv_u32_read r1 = Some (sz, r2)
          \<and> unat sz + 16 = length buf \<and> read_body E c buf = Some (Returned c')
          \<and> m_profile c' = Some p
          \<longrightarrow> m_padded c' \<and> m_size_valid c'
              \<and> gwsettings_write E c' =
                  Inr (calc_checksum E (write_buf E c') (Some p) @ write_buf E c'
                         @ replicate 16 0))"
proof -
  have a1: "m_size_valid (check_size c buf)
           = (unat (m_size c) = length buf \<or> unat (m_size c) + 16 = length buf)"
    by (rule check_size_flags(1) [OF assms])
  have a2: "m_padded (check_size c buf) = (m_padded c \<or> unat (m_size c) + 16 = length buf)"
    by (rule check_size_flags(2) [OF assms])
  have a3: "\<forall>ver r1 sz r2.
          nv_version_read (drop 74 buf) = Some (ver, r1) \<and> nv_u32_read r1 = Some (sz, r2)
          \<longrightarrow> read_body E c buf =
                settings_read E (check_size (c\<lparr>m_version := ver, m_size := sz\<rparr>) buf)
                  (ucast sz - 80) (in_stream r2)"
    using read_body_fields [of buf _ _ _ _ E c] by blast
  have a4: "\<forall>p. m_profile c = Some p
          \<longrightarrow> gwsettings_write E c =
                Inr (calc_checksum E (write_buf E c) (Some p) @ write_buf E c
                       @ (if m_padded c then replicate 16 0 else []))"
    using gwsettings_write_profile [of c _ E] by blast
  have a5: "\<forall>ver r1 sz r2 c' p.
          nv_version_read (drop 74 buf) = Some (ver, r1) \<and> nv_u32_read r1 = Some (sz, r2)
          \<and> unat sz + 16 = length buf \<and> read_body E c buf = Some (Returned c')
          \<and> m_profile c' = Some p
          \<longrightarrow> m_padded c' \<and> m_size_valid c'
              \<and> gwsettings_write E c' =
                  Inr (calc_checksum E (write_buf E c') (Some p) @ write_buf E c'
                         @ replicate 16 0)"
  proof (intro allI impI)
    fix ver r1 sz r2 c' p
    assume a: "nv_version_read (drop 74 buf) = Some (ver, r1) \<and> nv_u32_read r1 = Some (sz, r2)
          \<and> unat sz + 16 = length buf \<and> read_body E c buf = Some (Returned c')
          \<and> m_profile c' = Some p"
    let ?c1 = "check_size (c\<lparr>m_version := ver, m_size := sz\<rparr>) buf"
    from a have "settings_read E ?c1 (ucast sz - 80) (in_stream r2) = Some (Returned c')"
      using read_body_fields [of buf ver r1 sz r2 E c] by simp
    then obtain gs where c': "c' = ?c1\<lparr>m_groups := gs\<rparr>"
      using settings_read_state by fastforce
    have "m_padded ?c1" and "m_size_valid ?c1"
      using a check_size_flags(1,2) [OF assms, of "c\<lparr>m_version := ver, m_size := sz\<rparr>"]
      by simp_all
    then have "m_padded c'" and "m_size_valid c'"
      by (simp_all add: c')
    moreover from a \<open>m_padded c'\<close> have "gwsettings_write E c' =
                  Inr (calc_checksum E (write_buf E c') (Some p) @ write_buf E c'
                         @ replicate 16 0)"
      by (simp add: gwsettings_write_profile)
    ultimately show "m_padded c' \<and> m_size_valid c'
              \<and> gwsettings_write E c' =
                  Inr (calc_checksum E (write_buf E c') (Some p) @ write_buf E c'
                         @ replicate 16 0)"
      by simp
  qed
  show ?thesis
    by (intro conjI) (fact a1, fact a2, fact a3, fact a4, fact a5)
qed

lemma decrypt_trial_order_example:
  "trial_keys demo_env (new_gwsettings True (replicate 16 9) None) = [[7], [3], [5]]
   \<and> decrypt_and_detect_profile demo_env (new_gwsettings True (replicate 16 9) None)
        (crypt demo_env (s_magic @ [0, 1, 0, 0, 0, 80]) [5] False False)
      = (True, s_magic @ [0, 1, 0, 0, 0, 80],
         (new_gwsettings True (replicate 16 9) None)\<lparr>m_magic_valid := True, m_key := [5]\<rparr>)
   \<and> gwsettings_read demo_env (new_gwsettings True (replicate 16 9) None) (replicate 80 0)
      = Some (Returned ((new_gwsettings True (replicate 16 9) None)\<lparr>m_encrypted := True\<rparr>))"
proof -
  let ?c = "new_gwsettings True (replicate 16 9) None"
  let ?ct = "crypt demo_env (s_magic @ [0, 1, 0, 0, 0, 80]) [5] False False"
  have keys: "trial_keys demo_env ?c = [[7], [3], [5]]"
    by code_simp
  have f1: "find (trial_succeeds demo_env ?ct) (trial_keys demo_env ?c) = Some [5]"
    by code_simp
  have d1: "crypt demo_env ?ct [5] True False = s_magic @ [0, 1, 0, 0, 0, 80]"
    by code_simp
  have v: "validate_checksum_and_detect_profile demo_env ?c (replicate 80 0) = ?c"
    by code_simp
  have n: "take 74 (replicate 80 0) \<noteq> s_magic"
    by code_simp
  have f2: "find (trial_succeeds demo_env (replicate 80 0))
              (trial_keys demo_env
                 (validate_checksum_and_detect_profile demo_env ?c (replicate 80 0))) = None"
    by code_simp
  note t1 = decrypt_trial_order [of demo_env ?c ?ct, THEN conjunct1]
  have a: "decrypt_and_detect_profile demo_env ?c ?ct
      = (True, s_magic @ [0, 1, 0, 0, 0, 80], ?c\<lparr>m_magic_valid := True, m_key := [5]\<rparr>)"
    using t1 by (simp add: f1 d1)
  have b: "gwsettings_read demo_env ?c (replicate 80 0)
      = Some (Returned (?c\<lparr>m_encrypted := True\<rparr>))"
    using gwsettings_read_failed_search [OF n f2] v by (simp add: new_gwsettings_def)
  from keys a b show ?thesis by simp
qed

theorem failed_trials_leave_state_witness:
  "decrypt demo_env (new_gwsettings True (replicate 16 9) None) (replicate 80 0) [7]
     = (False, replicate 80 0, new_gwsettings True (replicate 16 9) None)
   \<and> decrypt_and_detect_profile demo_env (new_gwsettings True (replicate 16 9) None)
       (replicate 80 0)
     = (False, replicate 80 0, new_gwsettings True (replicate 16 9) None)
   \<and> m_key (new_gwsettings True (replicate 16 9) None) = []"
proof -
  let ?c = "new_gwsettings True (replicate 16 9) None"
  have h1: "\<not> fst (decrypt demo_env ?c (replicate 80 0) [7])"
    by code_simp
  have h2: "\<not> fst (decrypt_and_detect_profile demo_env ?c (replicate 80 0))"
    by code_simp
  note t = failed_trials_leave_state [of demo_env ?c "replicate 80 0" "[7]"]
  from t h1 have a: "decrypt demo_env ?c (replicate 80 0) [7] = (False, replicate 80 0, ?c)"
    by blast
  from t h2 have b: "decrypt_and_detect_profile demo_env ?c (replicate 80 0)
                       = (False, replicate 80 0, ?c)"
    by blast
  from a b show ?thesis by (simp add: new_gwsettings_def)
qed

lemma size_check_and_trailer_example:
  "16 \<le> length (s_magic @ [0, 1, 0, 0, 0, 80] @ replicate 16 0)
   \<and> length (s_magic @ [0, 1, 0, 0, 0, 80] @ replicate 16 0) < 2 ^ 32
   \<and> m_padded (check_size ((new_gwsettings True (replicate 16 9) None)\<lparr>m_size := 80\<rparr>)
                 (s_magic @ [0, 1, 0, 0, 0, 80] @ replicate 16 0))
   \<and> m_size_valid (check_size ((new_gwsettings True (replicate 16 9) None)\<lparr>m_size := 80\<rparr>)
                 (s_magic @ [0, 1, 0, 0, 0, 80] @ replicate 16 0))
   \<and> \<not> m_size_valid (check_size ((new_gwsettings True (replicate 16 9) None)\<lparr>m_size := 81\<rparr>)
                 (s_magic @ [0, 1, 0, 0, 0, 80] @ replicate 16 0))"
proof -
  let ?buf = "s_magic @ [0, 1, 0, 0, 0, 80] @ replicate 16 0"
  have h1: "16 \<le> length ?buf" by (simp add: length_s_magic)
  have h2: "length ?buf < 2 ^ 32" by (simp add: length_s_magic)
  show ?thesis
    using h1 h2
      size_check_and_trailer [OF h1 h2,
        of "(new_gwsettings True (replicate 16 9) None)\<lparr>m_size := 80\<rparr>" demo_env]
      size_check_and_trailer [OF h1 h2,
        of "(new_gwsettings True (replicate 16 9) None)\<lparr>m_size := 81\<rparr>" demo_env]
    by (simp add: length_s_magic)
qed

section \<open>The group-stream reader: modes and names\<close>

lemma loop_done:
  "remaining = 0 \<or> eofbit ist \<Longrightarrow>
   settings_read_loop E permissive ty ist grp remaining mult groups = Some (Returned (ist, groups))"
  by (subst settings_read_loop.simps) auto

lemma loop_bad_group:
  assumes "remaining \<noteq> 0" and "\<not> eofbit ist"
    and "nv_group_read E ist grp ty remaining = (ist', grp')"
    and "failbit ist'" and "\<not> eofbit ist'"
  shows "settings_read_loop E permissive ty ist grp remaining mult groups =
           (if permissive then Some (Returned (ist'\<lparr>failbit := False, eofbit := True\<rparr>, groups))
            else Some (Threw (case grp' of None \<Rightarrow> null_group | Some g \<Rightarrow> failed_to_read_group)
                             (ist', groups)))"
  using assms by (subst settings_read_loop.simps) simp

lemma loop_null_group:
  assumes "remaining \<noteq> 0" and "\<not> eofbit ist"
    and "nv_group_read E ist grp ty remaining = (ist', None)"
    and "\<not> (failbit ist' \<and> \<not> eofbit ist')"
  shows "settings_read_loop E permissive ty ist grp remaining mult groups =
           Some (Threw null_group (ist', groups))"
  using assms by (subst settings_read_loop.simps) auto

lemma loop_accept:
  assumes "remaining \<noteq> 0" and "\<not> eofbit ist"
    and "nv_group_read E ist grp ty remaining = (ist', Some g)"
    and "\<not> (failbit ist' \<and> \<not> eofbit ist')"
  shows "settings_read_loop E permissive ty ist grp remaining mult groups =
           settings_read_loop E permissive ty ist' (Some g) (remaining - word_of_nat (g_bytes g))
             (if find_group groups (g_name g) then mult + 1 else mult)
             (groups @ [(if find_group groups (g_name g)
                         then g_name g @ ''_'' @ to_string (unat (mult + 1)) else g_name g, g)])"
  using assms by (subst settings_read_loop.simps) auto

lemma strict_then_permissive:
  assumes run: "settings_read_loop E permissive ty ist grp remaining mult groups = Some r"
  shows "\<not> permissive \<longrightarrow>
         (\<exists>r'. settings_read_loop E True ty ist grp remaining mult groups = Some r'
            \<and> snd (state_of r') = snd (state_of r)
            \<and> (\<not> thrown r \<longrightarrow> r' = r)
            \<and> (\<forall>i gs. r = Threw failed_to_read_group (i, gs)
                  \<longrightarrow> r' = Returned (i\<lparr>failbit := False, eofbit := True\<rparr>, gs)))"
proof -
  let ?Q = "\<lambda>(E :: env) permissive ty ist grp remaining mult groups r.
       \<not> permissive \<longrightarrow>
         (\<exists>r'. settings_read_loop E True ty ist grp remaining mult groups = Some r'
            \<and> snd (state_of r') = snd (state_of r)
            \<and> (\<not> thrown r \<longrightarrow> r' = r)
            \<and> (\<forall>i gs. r = Threw failed_to_read_group (i, gs)
                  \<longrightarrow> r' = Returned (i\<lparr>failbit := False, eofbit := True\<rparr>, gs)))"
  have "?Q E permissive ty ist grp remaining mult groups r"
  proof (rule settings_read_loop.raw_induct [where P = ?Q, OF _ run])
    fix loop E permissive ty ist grp remaining mult groups r
    assume IH: "\<And>E permissive ty ist grp remaining mult groups r.
        loop E permissive ty ist grp remaining mult groups = Some r
        \<Longrightarrow> ?Q E permissive ty ist grp remaining mult groups r"
    assume body: "(if remaining \<noteq> 0 \<and> \<not> eofbit ist then
        (case nv_group_read E ist grp ty remaining of
           (ist', grp') \<Rightarrow>
             if failbit ist' \<and> \<not> eofbit ist' then
               (if \<not> permissive
                then Some (Threw (case grp' of None \<Rightarrow> null_group | Some g \<Rightarrow> failed_to_read_group)
                                 (ist', groups))
                else Some (Returned (ist'\<lparr>failbit := False, eofbit := True\<rparr>, groups)))
             else
               (case grp' of
                  None \<Rightarrow> Some (Threw null_group (ist', groups))
                | Some g \<Rightarrow>
                    if find_group groups (g_name g)
                    then loop E permissive ty ist' grp'
                           (remaining - word_of_nat (g_bytes g)) (mult + 1)
                           (groups @ [(g_name g @ ''_'' @ to_string (unat (mult + 1)), g)])
                    else loop E permissive ty ist' grp'
                           (remaining - word_of_nat (g_bytes g)) mult
                           (groups @ [(g_name g, g)])))
      else Some (Returned (ist, groups))) = Some r"
    show "?Q E permissive ty ist grp remaining mult groups r"
    proof (cases "remaining \<noteq> 0 \<and> \<not> eofbit ist")
      case False
      with body have "r = Returned (ist, groups)" by auto
      with False show ?thesis by (auto simp add: loop_done)
    next
      case True
      obtain ist' grp' where rd: "nv_group_read E ist grp ty remaining = (ist', grp')"
        by (cases "nv_group_read E ist grp ty remaining")
      show ?thesis
      proof (cases "failbit ist' \<and> \<not> eofbit ist'")
        case bad: True
        show ?thesis
        proof
          assume "\<not> permissive"
          with body True rd bad
          have r: "r = Threw (case grp' of None \<Rightarrow> null_group | Some g \<Rightarrow> failed_to_read_group)
                         (ist', groups)"
            by simp
          have "settings_read_loop E True ty ist grp remaining mult groups
                = Some (Returned (ist'\<lparr>failbit := False, eofbit := True\<rparr>, groups))"
            using loop_bad_group [of remaining ist E grp ty ist' grp' True mult groups] True rd bad
            by simp
          then show "\<exists>r'. settings_read_loop E True ty ist grp remaining mult groups = Some r'
              \<and> snd (state_of r') = snd (state_of r)
              \<and> (\<not> thrown r \<longrightarrow> r' = r)
              \<and> (\<forall>i gs. r = Threw failed_to_read_group (i, gs)
                    \<longrightarrow> r' = Returned (i\<lparr>failbit := False, eofbit := True\<rparr>, gs))"
            by (simp add: r)
        qed
      next
        case ok: False
        show ?thesis
        proof (cases grp')
          case None
          with body True rd ok have "r = Threw null_group (ist', groups)"
            by auto
          moreover have "settings_read_loop E True ty ist grp remaining mult groups
                = Some (Threw null_group (ist', groups))"
            using loop_null_group [of remaining ist E grp ty ist' True mult groups] True rd ok None
            by simp
          ultimately show ?thesis by simp
        next
          case (Some g)
          let ?mult = "if find_group groups (g_name g) then mult + 1 else mult"
          let ?groups = "groups @ [(if find_group groups (g_name g)
                           then g_name g @ ''_'' @ to_string (unat (mult + 1)) else g_name g, g)]"
          from body True rd ok Some
          have "loop E permissive ty ist' (Some g) (remaining - word_of_nat (g_bytes g))
                  ?mult ?groups = Some r"
            by (auto split: if_splits)
          from IH [OF this]
          have ih: "?Q E permissive ty ist' (Some g) (remaining - word_of_nat (g_bytes g))
                      ?mult ?groups r" .
          have "settings_read_loop E True ty ist grp remaining mult groups
                = settings_read_loop E True ty ist' (Some g) (remaining - word_of_nat (g_bytes g))
                    ?mult ?groups"
            using loop_accept [of remaining ist E grp ty ist' g True mult groups] True rd ok Some
            by simp
          with ih show ?thesis by simp
        qed
      qed
    qed
  qed
  then show ?thesis .
qed

lemma loop_invariant:
  assumes run: "settings_read_loop E permissive ty ist grp remaining mult groups = Some r"
    and init: "I mult groups"
    and step: "\<And>mult groups g. I mult groups \<Longrightarrow>
        I (if find_group groups (g_name g) then mult + 1 else mult)
          (groups @ [(if find_group groups (g_name g)
                      then g_name g @ ''_'' @ to_string (unat (mult + 1)) else g_name g, g)])"
  shows "\<exists>m. I m (snd (state_of r))"
proof -
  let ?Q = "\<lambda>(E :: env) (permissive :: bool) (ty :: group_type) (ist :: istream)
              (grp :: nv_group option) (remaining :: 64 word) (mult :: 32 word)
              (groups :: (string \<times> nv_group) list)
              (r :: (istream \<times> (string \<times> nv_group) list) outcome).
              I mult groups \<longrightarrow> (\<exists>m. I m (snd (state_of r)))"
  have "?Q E permissive ty ist grp remaining mult groups r"
  proof (rule settings_read_loop.raw_induct [where P = ?Q, OF _ run])
    fix loop E permissive ty ist grp remaining mult groups r
    assume IH: "\<And>E permissive ty ist grp remaining mult groups r.
        loop E permissive ty ist grp remaining mult groups = Some r
        \<Longrightarrow> ?Q E permissive ty ist grp remaining mult groups r"
    assume body: "(if remaining \<noteq> 0 \<and> \<not> eofbit ist then
        (case nv_group_read E ist grp ty remaining of
           (ist', grp') \<Rightarrow>
             if failbit ist' \<and> \<not> eofbit ist' then
               (if \<not> permissive
                then Some (Threw (case grp' of None \<Rightarrow> null_group | Some g \<Rightarrow> failed_to_read_group)
                                 (ist', groups))
                else Some (Returned (ist'\<lparr>failbit := False, eofbit := True\<rparr>, groups)))
             else
               (case grp' of
                  None \<Rightarrow> Some (Threw null_group (ist', groups))
                | Some g \<Rightarrow>
                    if find_group groups (g_name g)
                    then loop E permissive ty ist' grp'
                           (remaining - word_of_nat (g_bytes g)) (mult + 1)
                           (groups @ [(g_name g @ ''_'' @ to_string (unat (mult + 1)), g)])
                    else loop E permissive ty ist' grp'
                           (remaining - word_of_nat (g_bytes g)) mult
                           (groups @ [(g_name g, g)])))
      else Some (Returned (ist, groups))) = Some r"
    show "?Q E permissive ty ist grp remaining mult groups r"
    proof
      assume inv: "I mult groups"
      show "\<exists>m. I m (snd (state_of r))"
      proof (cases "remaining \<noteq> 0 \<and> \<not> eofbit ist")
        case False
        with body have "r = Returned (ist, groups)" by auto
        with inv show ?thesis by auto
      next
        case True
        obtain ist' grp' where rd: "nv_group_read E ist grp ty remaining = (ist', grp')"
          by (cases "nv_group_read E ist grp ty remaining")
        show ?thesis
        proof (cases "failbit ist' \<and> \<not> eofbit ist'")
          case bad: True
          with body True rd have "snd (state_of r) = groups"
            by (auto split: if_splits)
          with inv show ?thesis by auto
        next
          case ok: False
          show ?thesis
          proof (cases grp')
            case None
            with body True rd ok have "r = Threw null_group (ist', groups)"
              by auto
            with inv show ?thesis by auto
          next
            case (Some g)
            let ?mult = "if find_group groups (g_name g) then mult + 1 else mult"
            let ?groups = "groups @ [(if find_group groups (g_name g)
                             then g_name g @ ''_'' @ to_string (unat (mult + 1)) else g_name g, g)]"
            from body True rd ok Some
            have "loop E permissive ty ist' (Some g) (remaining - word_of_nat (g_bytes g))
                    ?mult ?groups = Some r"
              by (auto split: if_splits)
            from IH [OF this] step [OF inv, of g] show ?thesis
              by simp
          qed
        qed
      qed
    qed
  qed
  with init show ?thesis by simp
qed

lemma take_whole_length:
  assumes "take (length g) s = g"
  shows "length g \<le> length s"
proof -
  from assms have "length (take (length g) s) = length g" by simp
  then show ?thesis by simp
qed

lemma loop_extends:
  assumes run: "settings_read_loop E permissive ty ist grp remaining mult groups = Some r"
  shows "\<exists>zs. snd (state_of r) = groups @ zs"
proof -
  have "\<exists>m :: 32 word. take (length groups) (snd (state_of r)) = groups"
    by (rule loop_invariant [OF run, where I = "\<lambda>m gs. take (length groups) gs = groups"])
      (auto dest: take_whole_length)
  then have "snd (state_of r) = groups @ drop (length groups) (snd (state_of r))"
    by (metis append_take_drop_id)
  then show ?thesis ..
qed

text \<open>
  The two modes of the reader. When a group fails to parse before the end of the
  input, the reader in permissive mode stops, marks the stream as ended and returns
  the groups accepted so far, and in strict mode it leaves the loop through the
  \<open>throw\<close> expression. Whenever the strict run ends, the permissive run on the same
  input ends too, with exactly the groups the strict run had accepted, and with the
  same result when the strict run returned.
\<close>

lemma permissive_prefix_of_strict:
  "(remaining \<noteq> 0 \<and> \<not> eofbit ist
      \<and> failbit (fst (nv_group_read E ist grp ty remaining))
      \<and> \<not> eofbit (fst (nv_group_read E ist grp ty remaining))
    \<longrightarrow> settings_read_loop E True ty ist grp remaining mult groups
          = Some (Returned ((fst (nv_group_read E ist grp ty remaining))
                              \<lparr>failbit := False, eofbit := True\<rparr>, groups))
        \<and> (\<exists>e. settings_read_loop E False ty ist grp remaining mult groups
                  = Some (Threw e (fst (nv_group_read E ist grp ty remaining), groups))))
   \<and> (\<forall>r. settings_read_loop E False ty ist grp remaining mult groups = Some r
        \<longrightarrow> (\<exists>r'. settings_read_loop E True ty ist grp remaining mult groups = Some r'
               \<and> snd (state_of r') = snd (state_of r)
               \<and> (\<exists>zs. snd (state_of r) = snd (state_of r') @ zs)
               \<and> (\<exists>zs. snd (state_of r') = groups @ zs)
               \<and> (\<not> thrown r \<longrightarrow> r' = r)
               \<and> (\<forall>i gs. r = Threw failed_to_read_group (i, gs)
                     \<longrightarrow> r' = Returned (i\<lparr>failbit := False, eofbit := True\<rparr>, gs))))"
proof -
  have a1: "remaining \<noteq> 0 \<and> \<not> eofbit ist
      \<and> failbit (fst (nv_group_read E ist grp ty remaining))
      \<and> \<not> eofbit (fst (nv_group_read E ist grp ty remaining))
    \<longrightarrow> settings_read_loop E True ty ist grp remaining mult groups
          = Some (Returned ((fst (nv_group_read E ist grp ty remaining))
                              \<lparr>failbit := False, eofbit := True\<rparr>, groups))
        \<and> (\<exists>e. settings_read_loop E False ty ist grp remaining mult groups
                  = Some (Threw e (fst (nv_group_read E ist grp ty remaining), groups)))"
  proof
    assume a: "remaining \<noteq> 0 \<and> \<not> eofbit ist
      \<and> failbit (fst (nv_group_read E ist grp ty remaining))
      \<and> \<not> eofbit (fst (nv_group_read E ist grp ty remaining))"
    obtain ist' grp' where rd: "nv_group_read E ist grp ty remaining = (ist', grp')"
      by (cases "nv_group_read E ist grp ty remaining")
    from a rd
    have "settings_read_loop E True ty ist grp remaining mult groups
            = Some (Returned (ist'\<lparr>failbit := False, eofbit := True\<rparr>, groups))"
      and "settings_read_loop E False ty ist grp remaining mult groups
            = Some (Threw (case grp' of None \<Rightarrow> null_group | Some g \<Rightarrow> failed_to_read_group)
                          (ist', groups))"
      using loop_bad_group [of remaining ist E grp ty ist' grp' True mult groups]
        loop_bad_group [of remaining ist E grp ty ist' grp' False mult groups]
      by simp_all
    with rd show "settings_read_loop E True ty ist grp remaining mult groups
          = Some (Returned ((fst (nv_group_read E ist grp ty remaining))
                              \<lparr>failbit := False, eofbit := True\<rparr>, groups))
        \<and> (\<exists>e. settings_read_loop E False ty ist grp remaining mult groups
                  = Some (Threw e (fst (nv_group_read E ist grp ty remaining), groups)))"
      by simp
  qed
  have a2: "\<forall>r. settings_read_loop E False ty ist grp remaining mult groups = Some r
        \<longrightarrow> (\<exists>r'. settings_read_loop E True ty ist grp remaining mult groups = Some r'
               \<and> snd (state_of r') = snd (state_of r)
               \<and> (\<exists>zs. snd (state_of r) = snd (state_of r') @ zs)
               \<and> (\<exists>zs. snd (state_of r') = groups @ zs)
               \<and> (\<not> thrown r \<longrightarrow> r' = r)
               \<and> (\<forall>i gs. r = Threw failed_to_read_group (i, gs)
                     \<longrightarrow> r' = Returned (i\<lparr>failbit := False, eofbit := True\<rparr>, gs)))"
  proof (intro allI impI)
    fix r
    assume run: "settings_read_loop E False ty ist grp remaining mult groups = Some r"
    from strict_then_permissive [OF run]
    obtain r' where r': "settings_read_loop E True ty ist grp remaining mult groups = Some r'"
      and same: "snd (state_of r') = snd (state_of r)"
      and ret: "\<not> thrown r \<longrightarrow> r' = r"
      and thr: "\<forall>i gs. r = Threw failed_to_read_group (i, gs)
                  \<longrightarrow> r' = Returned (i\<lparr>failbit := False, eofbit := True\<rparr>, gs)"
      by blast
    from loop_extends [OF r'] obtain zs where zs: "snd (state_of r') = groups @ zs" ..
    from same have "snd (state_of r) = snd (state_of r') @ []" by simp
    then have pre: "\<exists>zs. snd (state_of r) = snd (state_of r') @ zs" ..
    from zs have ext: "\<exists>zs. snd (state_of r') = groups @ zs" ..
    from r' same pre ext ret thr
    show "\<exists>r'. settings_read_loop E True ty ist grp remaining mult groups = Some r'
               \<and> snd (state_of r') = snd (state_of r)
               \<and> (\<exists>zs. snd (state_of r) = snd (state_of r') @ zs)
               \<and> (\<exists>zs. snd (state_of r') = groups @ zs)
               \<and> (\<not> thrown r \<longrightarrow> r' = r)
               \<and> (\<forall>i gs. r = Threw failed_to_read_group (i, gs)
                     \<longrightarrow> r' = Returned (i\<lparr>failbit := False, eofbit := True\<rparr>, gs))"
      by blast
  qed
  show ?thesis
    by (intro conjI) (fact a1, fact a2)
qed

lemma demo_strict_run:
  "settings_read_loop demo_env False type_cfg
     (in_stream [0, 8, 97, 0, 0, 0, 0, 1, 0, 3, 98, 0, 0, 0, 0, 1, 7]) None 17 1 []
   = Some (Threw failed_to_read_group
        (\<lparr>unread = [7], failbit = True, eofbit = False\<rparr>,
         [(''a'', \<lparr>g_magic = [97, 0, 0, 0], g_version = [0, 1], g_name = ''a'', g_bytes = 8,
                  g_payload = []\<rparr>)]))"
  by code_simp

lemma permissive_prefix_of_strict_example:
  "settings_read_loop demo_env False type_cfg
     (in_stream [0, 8, 97, 0, 0, 0, 0, 1, 0, 3, 98, 0, 0, 0, 0, 1, 7]) None 17 1 []
   = Some (Threw failed_to_read_group
        (\<lparr>unread = [7], failbit = True, eofbit = False\<rparr>,
         [(''a'', \<lparr>g_magic = [97, 0, 0, 0], g_version = [0, 1], g_name = ''a'', g_bytes = 8,
                  g_payload = []\<rparr>)]))
   \<and> settings_read_loop demo_env True type_cfg
     (in_stream [0, 8, 97, 0, 0, 0, 0, 1, 0, 3, 98, 0, 0, 0, 0, 1, 7]) None 17 1 []
   = Some (Returned
        (\<lparr>unread = [7], failbit = False, eofbit = True\<rparr>,
         [(''a'', \<lparr>g_magic = [97, 0, 0, 0], g_version = [0, 1], g_name = ''a'', g_bytes = 8,
                  g_payload = []\<rparr>)]))"
proof -
  note t = permissive_prefix_of_strict
    [of 17 "in_stream [0, 8, 97, 0, 0, 0, 0, 1, 0, 3, 98, 0, 0, 0, 0, 1, 7]" demo_env None
        type_cfg 1 "[]", THEN conjunct2, rule_format, OF demo_strict_run]
  then obtain r' where
    "settings_read_loop demo_env True type_cfg
       (in_stream [0, 8, 97, 0, 0, 0, 0, 1, 0, 3, 98, 0, 0, 0, 0, 1, 7]) None 17 1 [] = Some r'"
    and "\<forall>i gs. Threw failed_to_read_group
            (\<lparr>unread = [7], failbit = True, eofbit = False\<rparr>,
             [(''a'', \<lparr>g_magic = [97, 0, 0, 0], g_version = [0, 1], g_name = ''a'', g_bytes = 8,
                  g_payload = []\<rparr>)]) = Threw failed_to_read_group (i, gs)
          \<longrightarrow> r' = Returned (i\<lparr>failbit := False, eofbit := True\<rparr>, gs)"
    by blast
  then show ?thesis
    using demo_strict_run by simp
qed

lemma to_string_nonempty: "to_string n \<noteq> []"
  by (subst to_string.simps) simp

lemma digit_char_inj: "digit_char a = digit_char b \<Longrightarrow> a mod 10 = b mod 10"
proof -
  assume a: "digit_char a = digit_char b"
  have d: "distinct ''0123456789''" by simp
  have "a mod 10 < length ''0123456789''" and "b mod 10 < length ''0123456789''"
    by simp_all
  with a d show ?thesis
    unfolding digit_char_def by (simp only: nth_eq_iff_index_eq)
qed

lemma digit_char_no_underscore: "digit_char d \<noteq> CHR ''_''"
proof -
  have "d mod 10 < length ''0123456789''" by simp
  then have "''0123456789'' ! (d mod 10) \<in> set ''0123456789''"
    by (rule nth_mem)
  moreover have "CHR ''_'' \<notin> set ''0123456789''" by simp
  ultimately show ?thesis
    unfolding digit_char_def by metis
qed

lemma to_string_no_underscore: "CHR ''_'' \<notin> set (to_string n)"
proof (induction n rule: to_string.induct)
  case (1 n)
  show ?case
  proof (cases "n < 10")
    case True
    then show ?thesis
      by (subst to_string.simps) (simp add: digit_char_no_underscore [symmetric])
  next
    case False
    with 1 show ?thesis
      by (subst to_string.simps) (simp add: digit_char_no_underscore [symmetric])
  qed
qed

lemma to_string_inj: "to_string a = to_string b \<Longrightarrow> a = b"
proof (induction a arbitrary: b rule: to_string.induct)
  case (1 a)
  show ?case
  proof (cases "a < 10")
    case True
    then have sa: "to_string a = [digit_char a]"
      by (subst to_string.simps) simp
    have "b < 10"
    proof (rule ccontr)
      assume "\<not> b < 10"
      then have "to_string b = to_string (b div 10) @ [digit_char (b mod 10)]"
        by (subst to_string.simps) simp
      with sa "1.prems" to_string_nonempty [of "b div 10"] show False by simp
    qed
    then have "to_string b = [digit_char b]"
      by (subst to_string.simps) simp
    with sa "1.prems" have "digit_char a = digit_char b"
      by simp
    then have "a mod 10 = b mod 10"
      by (rule digit_char_inj)
    with True \<open>b < 10\<close> show ?thesis by simp
  next
    case False
    then have sa: "to_string a = to_string (a div 10) @ [digit_char (a mod 10)]"
      by (subst to_string.simps) simp
    have "\<not> b < 10"
    proof
      assume "b < 10"
      then have "to_string b = [digit_char b]"
        by (subst to_string.simps) simp
      with sa "1.prems" to_string_nonempty [of "a div 10"] show False by simp
    qed
    then have sb: "to_string b = to_string (b div 10) @ [digit_char (b mod 10)]"
      by (subst to_string.simps) simp
    from sa sb "1.prems" have e1: "to_string (a div 10) = to_string (b div 10)"
      and e2: "digit_char (a mod 10) = digit_char (b mod 10)"
      by simp_all
    from "1.IH" [OF False e1] have d: "a div 10 = b div 10" .
    from digit_char_inj [OF e2] have m: "a mod 10 = b mod 10"
      by simp
    have "a = a div 10 * 10 + a mod 10" by simp
    also have "\<dots> = b div 10 * 10 + b mod 10" by (simp only: d m)
    also have "\<dots> = b" by simp
    finally show ?thesis .
  qed
qed

lemma suffix_number_unique:
  assumes "xs @ ''_'' @ to_string a = ys @ ''_'' @ to_string b"
  shows "a = b"
proof -
  have tw: "takeWhile (\<lambda>c. c \<noteq> CHR ''_'') (rev (to_string n) @ CHR ''_'' # zs)
            = rev (to_string n)" for n zs
  proof -
    have "\<And>x. x \<in> set (rev (to_string n)) \<Longrightarrow> x \<noteq> CHR ''_''"
      using to_string_no_underscore [of n] by auto
    then have "takeWhile (\<lambda>c. c \<noteq> CHR ''_'') (rev (to_string n) @ CHR ''_'' # zs)
               = rev (to_string n) @ takeWhile (\<lambda>c. c \<noteq> CHR ''_'') (CHR ''_'' # zs)"
      by (rule takeWhile_append2)
    then show ?thesis by simp
  qed
  from assms have "rev (xs @ ''_'' @ to_string a) = rev (ys @ ''_'' @ to_string b)"
    by (rule arg_cong)
  then have e: "rev (to_string a) @ CHR ''_'' # rev xs = rev (to_string b) @ CHR ''_'' # rev ys"
    by simp
  have "rev (to_string a)
        = takeWhile (\<lambda>c. c \<noteq> CHR ''_'') (rev (to_string a) @ CHR ''_'' # rev xs)"
    by (simp only: tw)
  also have "\<dots> = takeWhile (\<lambda>c. c \<noteq> CHR ''_'') (rev (to_string b) @ CHR ''_'' # rev ys)"
    by (simp only: e)
  also have "\<dots> = rev (to_string b)"
    by (simp only: tw)
  finally have "to_string a = to_string b" by simp
  then show ?thesis
    by (rule to_string_inj)
qed

lemma renamed_count_append:
  "renamed_count (xs @ ys) = renamed_count xs + renamed_count ys"
  by (simp add: renamed_count_def)

lemma renamed_count_le: "renamed_count gs \<le> length gs"
  by (simp add: renamed_count_def)

lemma suffixed_differs: "xs @ ''_'' @ ys \<noteq> xs"
  by simp

lemma counter_names_snoc:
  assumes "counter_names gs"
    and "n = (if find_group gs (g_name g)
              then g_name g @ ''_'' @ to_string ((renamed_count gs + 2) mod 2 ^ 32)
              else g_name g)"
  shows "counter_names (gs @ [(n, g)])"
  unfolding counter_names_def
proof (intro allI impI)
  fix i
  assume i: "i < length (gs @ [(n, g)])"
  show "fst ((gs @ [(n, g)]) ! i) =
          (if find_group (take i (gs @ [(n, g)])) (g_name (snd ((gs @ [(n, g)]) ! i)))
           then g_name (snd ((gs @ [(n, g)]) ! i)) @ ''_''
                  @ to_string ((renamed_count (take i (gs @ [(n, g)])) + 2) mod 2 ^ 32)
           else g_name (snd ((gs @ [(n, g)]) ! i)))"
  proof (cases "i < length gs")
    case True
    then have "(gs @ [(n, g)]) ! i = gs ! i" and "take i (gs @ [(n, g)]) = take i gs"
      by (simp_all add: nth_append)
    with assms(1) True show ?thesis
      by (simp add: counter_names_def)
  next
    case False
    with i have "i = length gs" by simp
    with assms(2) show ?thesis by simp
  qed
qed

lemma mult_next:
  "unat (word_of_nat (k + 1) + 1 :: 32 word) = (k + 2) mod 2 ^ 32"
proof -
  have "(word_of_nat (k + 1) + 1 :: 32 word) = word_of_nat (k + 2)"
    by simp
  then show ?thesis
    by (simp only: unat_of_nat) simp
qed

lemma loop_counter_names:
  assumes run: "settings_read_loop E permissive ty ist grp remaining 1 [] = Some r"
  shows "counter_names (snd (state_of r))"
proof -
  let ?I = "\<lambda>(mult :: 32 word) gs. counter_names gs \<and> mult = word_of_nat (renamed_count gs + 1)"
  have "\<exists>m. ?I m (snd (state_of r))"
  proof (rule loop_invariant [OF run, where I = ?I])
    show "?I 1 []"
      by (simp add: counter_names_def renamed_count_def)
  next
    fix mult :: "32 word" and groups :: "(string \<times> nv_group) list" and g :: nv_group
    assume inv: "?I mult groups"
    let ?n = "if find_group groups (g_name g)
              then g_name g @ ''_'' @ to_string (unat (mult + 1)) else g_name g"
    from inv have cn: "counter_names groups"
      and m: "mult = word_of_nat (renamed_count groups + 1)"
      by simp_all
    have u: "unat (mult + 1) = (renamed_count groups + 2) mod 2 ^ 32"
      unfolding m by (rule mult_next)
    have "counter_names (groups @ [(?n, g)])"
    proof (rule counter_names_snoc [OF cn])
      show "?n = (if find_group groups (g_name g)
                  then g_name g @ ''_'' @ to_string ((renamed_count groups + 2) mod 2 ^ 32)
                  else g_name g)"
        by (simp only: u)
    qed
    moreover have "renamed_count (groups @ [(?n, g)])
                   = renamed_count groups + (if find_group groups (g_name g) then 1 else 0)"
      by (simp add: renamed_count_def)
    then have "(if find_group groups (g_name g) then mult + 1 else mult)
               = word_of_nat (renamed_count (groups @ [(?n, g)]) + 1)"
      using inv by simp
    ultimately show "?I (if find_group groups (g_name g) then mult + 1 else mult)
                        (groups @ [(?n, g)])"
      by simp
  qed
  then show ?thesis by simp
qed

lemma counter_names_distinct:
  assumes cn: "counter_names gs" and len: "length gs < 2 ^ 32 - 1"
    and own: "\<forall>i < length gs. \<forall>b k. g_name (snd (gs ! i)) \<noteq> b @ ''_'' @ to_string k"
  shows "distinct (map fst gs)"
proof -
  have small: "(renamed_count (take i gs) + 2) mod 2 ^ 32 = renamed_count (take i gs) + 2"
    if "i < length gs" for i
  proof -
    have "renamed_count (take i gs) \<le> i"
      using renamed_count_le [of "take i gs"] that by simp
    with that len have "renamed_count (take i gs) + 2 < 2 ^ 32" by simp
    then show ?thesis by simp
  qed
  have name: "fst (gs ! i) =
          (if find_group (take i gs) (g_name (snd (gs ! i)))
           then g_name (snd (gs ! i)) @ ''_'' @ to_string (renamed_count (take i gs) + 2)
           else g_name (snd (gs ! i)))" if "i < length gs" for i
    using cn that small [OF that] by (simp add: counter_names_def)
  have diff: "fst (gs ! i) \<noteq> fst (gs ! j)" if "i < j" and "j < length gs" for i j
  proof -
    from that have i: "i < length gs" by simp
    have earlier: "fst (gs ! i) \<in> set (map fst (take j gs))"
    proof -
      from that have "i < length (take j gs)" by simp
      then have "take j gs ! i \<in> set (take j gs)" by (rule nth_mem)
      with that show ?thesis by simp
    qed
    show ?thesis
    proof (cases "find_group (take j gs) (g_name (snd (gs ! j)))")
      case False
      with name [OF that(2)] have "fst (gs ! j) = g_name (snd (gs ! j))" by simp
      with False have "fst (gs ! j) \<notin> set (map fst (take j gs))"
        by (simp add: find_group_def)
      with earlier show ?thesis by metis
    next
      case fj: True
      with name [OF that(2)]
      have nj: "fst (gs ! j) = g_name (snd (gs ! j)) @ ''_''
                  @ to_string (renamed_count (take j gs) + 2)"
        by simp
      show ?thesis
      proof (cases "find_group (take i gs) (g_name (snd (gs ! i)))")
        case False
        with name [OF i] have "fst (gs ! i) = g_name (snd (gs ! i))" by simp
        with nj own i show ?thesis by metis
      next
        case fi: True
        with name [OF i]
        have ni: "fst (gs ! i) = g_name (snd (gs ! i)) @ ''_''
                    @ to_string (renamed_count (take i gs) + 2)"
          by simp
        have "take (Suc i) gs = take i gs @ [gs ! i]"
          using i by (rule take_Suc_conv_app_nth)
        moreover have "fst (gs ! i) \<noteq> g_name (snd (gs ! i))"
          unfolding ni by simp
        ultimately have c1: "renamed_count (take (Suc i) gs) = renamed_count (take i gs) + 1"
          by (simp add: renamed_count_def case_prod_beta)
        have "take j gs = take (Suc i) gs @ drop (Suc i) (take j gs)"
          using that by (metis Suc_leI append_take_drop_id min.absorb2 take_take min.commute)
        then have "renamed_count (take j gs)
                   = renamed_count (take (Suc i) gs) + renamed_count (drop (Suc i) (take j gs))"
          by (metis renamed_count_append)
        with c1 have "renamed_count (take i gs) + 2 \<noteq> renamed_count (take j gs) + 2"
          by simp
        then show ?thesis
          unfolding ni nj using suffix_number_unique by blast
      qed
    qed
  qed
  show ?thesis
    unfolding distinct_conv_nth
  proof (intro allI impI)
    fix i j
    assume "i < length (map fst gs)" and "j < length (map fst gs)" and "i \<noteq> j"
    then consider "i < j" "j < length gs" | "j < i" "i < length gs"
      by (cases "i < j") auto
    then show "map fst gs ! i \<noteq> map fst gs ! j"
    proof cases
      case 1
      with diff [of i j] show ?thesis by simp
    next
      case 2
      with diff [of j i] show ?thesis by simp
    qed
  qed
qed

lemma to_string_2: "to_string (Suc (Suc 0)) = ''2''"
  by (subst to_string.simps) (simp add: digit_char_def)

text \<open>
  C8, as stated, fails. For the groups \<open>a\<close>, \<open>a\<close>, \<open>b\<close>, \<open>b_3\<close>, \<open>b\<close> the reader produces the
  names \<open>a\<close>, \<open>a_2\<close>, \<open>b\<close>, \<open>b_3\<close>, \<open>b_3\<close>: the first duplicate of \<open>b\<close> is numbered 3, not
  2, and the names are not unique.
\<close>

theorem group_names_counterexample:
  "map_option (map_outcome (map fst \<circ> snd))
     (settings_read_loop demo_env True type_cfg
        (in_stream [0, 8, 97, 0, 0, 0, 0, 1,  0, 8, 97, 0, 0, 0, 0, 1,  0, 8, 98, 0, 0, 0, 0, 1,
                    0, 8, 98, 95, 51, 0, 0, 1,  0, 8, 98, 0, 0, 0, 0, 1])
        None 40 1 [])
   = Some (Returned [''a'', ''a_2'', ''b'', ''b_3'', ''b_3''])"
  by code_simp

text \<open>
  C8, amended. After the group-stream reader has finished, the list holds the groups in
  the order in which they were read (each accepted group is appended), and the names
  follow \<open>counter_names\<close>: a group whose name already occurs in the list is renamed by
  appending \<open>_\<close> and a number that comes from one counter shared by all names, 2 for
  the first group renamed (never 1) and one more for each group renamed after it. The
  names are unique when no group's own name ends in \<open>_\<close> and a decimal number and fewer
  than \<open>2^32 - 1\<close> groups were read.
\<close>

theorem group_names_by_counter:
  assumes "settings_read_loop E permissive ty ist grp remaining 1 [] = Some r"
  shows "counter_names (snd (state_of r))
    \<and> (\<forall>i < length (snd (state_of r)).
          find_group (take i (snd (state_of r))) (g_name (snd (snd (state_of r) ! i)))
          \<and> renamed_count (take i (snd (state_of r))) = 0
          \<longrightarrow> fst (snd (state_of r) ! i) = g_name (snd (snd (state_of r) ! i)) @ ''_2'')
    \<and> (length (snd (state_of r)) < 2 ^ 32 - 1
        \<and> (\<forall>i < length (snd (state_of r)). \<forall>b k.
              g_name (snd (snd (state_of r) ! i)) \<noteq> b @ ''_'' @ to_string k)
        \<longrightarrow> distinct (map fst (snd (state_of r))))
    \<and> (\<forall>ist0 grp0 rem0 mult groups ist' g.
          rem0 \<noteq> 0 \<and> \<not> eofbit ist0 \<and> nv_group_read E ist0 grp0 ty rem0 = (ist', Some g)
          \<and> \<not> (failbit ist' \<and> \<not> eofbit ist')
          \<longrightarrow> settings_read_loop E permissive ty ist0 grp0 rem0 mult groups =
                settings_read_loop E permissive ty ist' (Some g) (rem0 - word_of_nat (g_bytes g))
                  (if find_group groups (g_name g) then mult + 1 else mult)
                  (groups @ [(if find_group groups (g_name g)
                              then g_name g @ ''_'' @ to_string (unat (mult + 1))
                              else g_name g, g)]))"
proof -
  have a1: "counter_names (snd (state_of r))"
    using assms by (rule loop_counter_names)
  have a2: "\<forall>i < length (snd (state_of r)).
          find_group (take i (snd (state_of r))) (g_name (snd (snd (state_of r) ! i)))
          \<and> renamed_count (take i (snd (state_of r))) = 0
          \<longrightarrow> fst (snd (state_of r) ! i) = g_name (snd (snd (state_of r) ! i)) @ ''_2''"
    using a1 by (simp add: counter_names_def to_string_2)
  have a3: "length (snd (state_of r)) < 2 ^ 32 - 1
        \<and> (\<forall>i < length (snd (state_of r)). \<forall>b k.
              g_name (snd (snd (state_of r) ! i)) \<noteq> b @ ''_'' @ to_string k)
        \<longrightarrow> distinct (map fst (snd (state_of r)))"
    using counter_names_distinct [OF a1] by blast
  have a4: "\<forall>ist0 grp0 rem0 mult groups ist' g.
          rem0 \<noteq> 0 \<and> \<not> eofbit ist0 \<and> nv_group_read E ist0 grp0 ty rem0 = (ist', Some g)
          \<and> \<not> (failbit ist' \<and> \<not> eofbit ist')
          \<longrightarrow> settings_read_loop E permissive ty ist0 grp0 rem0 mult groups =
                settings_read_loop E permissive ty ist' (Some g) (rem0 - word_of_nat (g_bytes g))
                  (if find_group groups (g_name g) then mult + 1 else mult)
                  (groups @ [(if find_group groups (g_name g)
                              then g_name g @ ''_'' @ to_string (unat (mult + 1))
                              else g_name g, g)])"
    using loop_accept by blast
  show ?thesis
    by (intro conjI) (fact a1, fact a2, fact a3, fact a4)
qed

lemma demo_names_run:
  "settings_read_loop demo_env True type_cfg
     (in_stream [0, 8, 97, 0, 0, 0, 0, 1,  0, 8, 97, 0, 0, 0, 0, 1,  0, 8, 98, 0, 0, 0, 0, 1,
                 0, 8, 98, 0, 0, 0, 0, 1])
     None 32 1 []
   = Some (Returned
       (\<lparr>unread = [], failbit = False, eofbit = False\<rparr>,
        [(''a'', \<lparr>g_magic = [97, 0, 0, 0], g_version = [0, 1], g_name = ''a'', g_bytes = 8,
                 g_payload = []\<rparr>),
         (''a_2'', \<lparr>g_magic = [97, 0, 0, 0], g_version = [0, 1], g_name = ''a'', g_bytes = 8,
                   g_payload = []\<rparr>),
         (''b'', \<lparr>g_magic = [98, 0, 0, 0], g_version = [0, 1], g_name = ''b'', g_bytes = 8,
                 g_payload = []\<rparr>),
         (''b_3'', \<lparr>g_magic = [98, 0, 0, 0], g_version = [0, 1], g_name = ''b'', g_bytes = 8,
                   g_payload = []\<rparr>)]))"
  by code_simp

lemma no_underscore_name:
  assumes "CHR ''_'' \<notin> set n"
  shows "n \<noteq> b @ CHR ''_'' # to_string k"
proof
  assume "n = b @ CHR ''_'' # to_string k"
  then have "CHR ''_'' \<in> set n" by simp
  with assms show False ..
qed

theorem group_names_by_counter_witness:
  "map fst (snd (state_of (the
     (settings_read_loop demo_env True type_cfg
        (in_stream [0, 8, 97, 0, 0, 0, 0, 1,  0, 8, 97, 0, 0, 0, 0, 1,  0, 8, 98, 0, 0, 0, 0, 1,
                    0, 8, 98, 0, 0, 0, 0, 1])
        None 32 1 []))))
   = [''a'', ''a_2'', ''b'', ''b_3'']
   \<and> distinct (map fst (snd (state_of (the
     (settings_read_loop demo_env True type_cfg
        (in_stream [0, 8, 97, 0, 0, 0, 0, 1,  0, 8, 97, 0, 0, 0, 0, 1,  0, 8, 98, 0, 0, 0, 0, 1,
                    0, 8, 98, 0, 0, 0, 0, 1])
        None 32 1 [])))))
   \<and> counter_names (snd (state_of (the
     (settings_read_loop demo_env True type_cfg
        (in_stream [0, 8, 97, 0, 0, 0, 0, 1,  0, 8, 97, 0, 0, 0, 0, 1,  0, 8, 98, 0, 0, 0, 0, 1,
                    0, 8, 98, 0, 0, 0, 0, 1])
        None 32 1 []))))"
proof -
  let ?gs = "[(''a'', \<lparr>g_magic = [97, 0, 0, 0], g_version = [0, 1], g_name = ''a'', g_bytes = 8,
                 g_payload = []\<rparr>),
         (''a_2'', \<lparr>g_magic = [97, 0, 0, 0], g_version = [0, 1], g_name = ''a'', g_bytes = 8,
                   g_payload = []\<rparr>),
         (''b'', \<lparr>g_magic = [98, 0, 0, 0], g_version = [0, 1], g_name = ''b'', g_bytes = 8,
                 g_payload = []\<rparr>),
         (''b_3'', \<lparr>g_magic = [98, 0, 0, 0], g_version = [0, 1], g_name = ''b'', g_bytes = 8,
                   g_payload = []\<rparr>)]"
  note t = group_names_by_counter [OF demo_names_run]
  have own: "\<forall>i < length ?gs. \<forall>b k. g_name (snd (?gs ! i)) \<noteq> b @ ''_'' @ to_string k"
  proof -
    have "\<forall>x \<in> set ?gs. \<forall>b k. g_name (snd x) \<noteq> b @ ''_'' @ to_string k"
      by (simp add: no_underscore_name)
    then show ?thesis
      by (simp only: all_set_conv_all_nth)
  qed
  have len: "length ?gs < 2 ^ 32 - 1" by simp
  from t have cn: "counter_names ?gs" by simp
  from t own len have d: "distinct (map fst ?gs)" by simp
  from cn d show ?thesis
    by (simp add: demo_names_run)
qed

section \<open>The caller's key and the strict mode\<close>

lemma read_settings_ignores_key:
  "read_settings E permissive inp ty p key = read_settings E permissive inp ty p key'"
  by (simp add: read_settings_def)

lemma demo_key9_trial:
  "trial_succeeds demo_env (crypt demo_env (s_magic @ [0, 1, 0, 0, 0, 80]) [9] False False) [9]"
  by code_simp

lemma demo_key9_read:
  "gwsettings_read demo_env (new_gwsettings True (replicate 16 9) None)
     (crypt demo_env (s_magic @ [0, 1, 0, 0, 0, 80]) [9] False False)
   = Some (Returned ((new_gwsettings True (replicate 16 9) None)\<lparr>m_encrypted := True\<rparr>))"
  by code_simp

lemma demo_key5_read:
  "gwsettings_read demo_env (new_gwsettings True (replicate 16 9) None)
     (crypt demo_env (s_magic @ [0, 1, 0, 0, 0, 80]) [5] False False)
   = Some (Returned ((new_gwsettings True (replicate 16 9) None)
        \<lparr>m_magic_valid := True, m_size_valid := True, m_version := (0, 1), m_size := 80,
         m_key := [5]\<rparr>))"
  by code_simp

text \<open>
  C4. The key that a caller passes to \<open>settings::read\<close> is never tried. A container
  encrypted with the key \<open>09\<close>, which is no default key of the registry, is read with
  that key supplied: decrypting with it would yield the magic, but the object is
  returned as encrypted, without groups. A container encrypted with the registry key
  \<open>05\<close> is read with the key \<open>07\<close> supplied: the search still goes through the
  registry and finds \<open>05\<close>.
\<close>

theorem caller_key_never_tried:
  "trial_succeeds demo_env (crypt demo_env (s_magic @ [0, 1, 0, 0, 0, 80]) [9] False False) [9]
   \<and> read_settings demo_env True
        (replicate 16 9 @ crypt demo_env (s_magic @ [0, 1, 0, 0, 0, 80]) [9] False False)
        type_cfg None [9]
      = Some (Gwsettings (Returned
          ((new_gwsettings True (replicate 16 9) None)\<lparr>m_encrypted := True\<rparr>)))
   \<and> read_settings demo_env True
        (replicate 16 9 @ crypt demo_env (s_magic @ [0, 1, 0, 0, 0, 80]) [5] False False)
        type_cfg None [7]
      = Some (Gwsettings (Returned
          ((new_gwsettings True (replicate 16 9) None)
             \<lparr>m_magic_valid := True, m_size_valid := True, m_version := (0, 1), m_size := 80,
              m_key := [5]\<rparr>)))"
  using demo_key9_trial demo_key9_read demo_key5_read
  by (simp add: read_settings_def)


text \<open>
  C7. In strict mode a first group that fails to parse before the end of the input
  does not make the reader throw its error: the \<open>throw\<close> expression calls
  \<open>group->magic()\<close> on the group pointer, which is still null.
\<close>

theorem strict_bad_first_group:
  "settings_read_loop demo_env False type_cfg (in_stream [0, 3, 98, 0, 0, 0, 0, 1, 7]) None 9 1 []
   = Some (Threw null_group (\<lparr>unread = [7], failbit = True, eofbit = False\<rparr>, []))
   \<and> settings_read demo_env (new_gwsettings False (replicate 16 9) None) 9
        (in_stream [0, 3, 98, 0, 0, 0, 0, 1, 7])
   = Some (Threw null_group (new_gwsettings False (replicate 16 9) None))"
  by code_simp


section \<open>Reading a container and writing it back\<close>

lemma demo_padded_read:
  "gwsettings_read demo_env (new_gwsettings True (replicate 16 67) None)
     (crypt demo_env (s_magic @ [0, 1, 0, 0, 0, 80]) [5] False True)
   = Some (Returned
       \<lparr>m_type = type_cfg,
        m_profile = Some \<lparr>p_name = ''two'', md5_key = [2], default_keys = [[3], [5]]\<rparr>,
        m_permissive = True, m_groups = [], m_checksum = replicate 16 67,
        m_is_auto_profile = True, m_checksum_valid = True, m_magic_valid = True,
        m_size_valid = True, m_encrypted = False, m_version = (0, 1), m_size = 80,
        m_key = [5], m_padded = True\<rparr>)"
  by code_simp

lemma demo_padded_write:
  "gwsettings_write demo_env
       \<lparr>m_type = type_cfg,
        m_profile = Some \<lparr>p_name = ''two'', md5_key = [2], default_keys = [[3], [5]]\<rparr>,
        m_permissive = True, m_groups = [], m_checksum = replicate 16 67,
        m_is_auto_profile = True, m_checksum_valid = True, m_magic_valid = True,
        m_size_valid = True, m_encrypted = False, m_version = (0, 1), m_size = 80,
        m_key = [5], m_padded = True\<rparr>
   = Inr (replicate 16 67 @ crypt demo_env (s_magic @ [0, 1, 0, 0, 0, 80]) [5] False True
            @ replicate 16 0)"
  by code_simp


lemma length_calc_checksum: "length (calc_checksum E buf p) = 16"
  by (simp add: calc_checksum_def length_blk16)

lemma length_crypt: "length (crypt E ibuf key dec pad) = length (crypt_input ibuf dec pad)"
  by (simp add: crypt_def length_crypt_blocks)

lemma length_write_buf:
  "length (write_buf E c) =
     80 + length (settings_write E (m_groups c))
       + (if m_key c \<noteq> [] \<and> m_padded c then 16 else 0)"
  by (simp add: write_buf_def Let_def length_crypt crypt_input_def length_s_magic
      nv_version_write_def length_u32_bytes)

lemma read_body_returned:
  assumes "read_body E c buf = Some (Returned c')"
  shows "\<exists>ver r1 sz r2 gs.
           nv_version_read (drop 74 buf) = Some (ver, r1) \<and> nv_u32_read r1 = Some (sz, r2)
           \<and> c' = (check_size (c\<lparr>m_version := ver, m_size := sz\<rparr>) buf)\<lparr>m_groups := gs\<rparr>"
proof (cases "nv_version_read (drop 74 buf)")
  case None
  with assms show ?thesis
    by (simp add: read_body_def length_s_magic)
next
  case (Some a)
  obtain ver r1 where a: "a = (ver, r1)" by (cases a)
  show ?thesis
  proof (cases "nv_u32_read r1")
    case None
    with assms Some a show ?thesis
      by (simp add: read_body_def length_s_magic)
  next
    case (Some b)
    obtain sz r2 where b: "b = (sz, r2)" by (cases b)
    from \<open>nv_version_read (drop 74 buf) = Some a\<close> a Some b
    have f: "read_body E c buf =
           settings_read E (check_size (c\<lparr>m_version := ver, m_size := sz\<rparr>) buf)
             (ucast sz - 80) (in_stream r2)"
      by (simp add: read_body_fields)
    with assms obtain gs
      where "c' = (check_size (c\<lparr>m_version := ver, m_size := sz\<rparr>) buf)\<lparr>m_groups := gs\<rparr>"
      using settings_read_state
        [of E "check_size (c\<lparr>m_version := ver, m_size := sz\<rparr>) buf" "ucast sz - 80"
            "in_stream r2" "Returned c'"]
      by auto
    with \<open>nv_version_read (drop 74 buf) = Some a\<close> a Some b show ?thesis
      by blast
  qed
qed

lemma header_needs_80:
  assumes "nv_version_read (drop 74 buf) = Some (ver, r1)" and "nv_u32_read r1 = Some (sz, r2)"
  shows "80 \<le> length buf"
proof -
  from assms(1) obtain a b where d: "drop 74 buf = a # b # r1"
    by (cases "drop 74 buf" rule: nv_version_read.cases) auto
  from assms(2) obtain e f g h where r: "r1 = e # f # g # h # r2"
    by (cases r1 rule: nv_u32_read.cases) auto
  from d r have "length (drop 74 buf) = 6 + length r2" by simp
  then show ?thesis by simp
qed

lemma read_body_padded:
  assumes "read_body E c buf = Some (Returned c')" and "length buf < 2 ^ 32"
    and "\<not> m_padded c" and "m_padded c'"
  shows "unat (m_size c') + 16 = length buf"
proof -
  from read_body_returned [OF assms(1)] obtain ver r1 sz r2 gs
    where v: "nv_version_read (drop 74 buf) = Some (ver, r1)"
      and u: "nv_u32_read r1 = Some (sz, r2)"
      and c': "c' = (check_size (c\<lparr>m_version := ver, m_size := sz\<rparr>) buf)\<lparr>m_groups := gs\<rparr>"
    by blast
  from header_needs_80 [OF v u] have "16 \<le> length buf" by simp
  from check_size_flags(2,3) [OF this assms(2), of "c\<lparr>m_version := ver, m_size := sz\<rparr>"]
    assms(3,4) c'
  show ?thesis by simp
qed

lemma gwsettings_read_padded:
  assumes rd: "gwsettings_read E c buf = Some (Returned c')" and len: "length buf < 2 ^ 32"
    and np: "\<not> m_padded c" and p: "m_padded c'"
  shows "unat (m_size c') + 16 = length buf"
proof (cases "take 74 buf = s_magic")
  case True
  with rd have "read_body E ((validate_checksum_and_detect_profile E c buf)
                                \<lparr>m_magic_valid := True\<rparr>) buf = Some (Returned c')"
    by (simp add: gwsettings_read_cleartext)
  from read_body_padded [OF this len _ p] np validate_keeps [of E c buf]
  show ?thesis by simp
next
  case False
  let ?c1 = "validate_checksum_and_detect_profile E c buf"
  show ?thesis
  proof (cases "find (trial_succeeds E buf) (trial_keys E ?c1)")
    case None
    from gwsettings_read_failed_search [OF False None] rd
    have "c' = ?c1\<lparr>m_magic_valid := False, m_encrypted := True\<rparr>" by simp
    with p np validate_keeps [of E c buf] show ?thesis by simp
  next
    case (Some k)
    from gwsettings_read_found_key [OF False Some] rd
    have "read_body E (?c1\<lparr>m_magic_valid := True, m_key := k\<rparr>) (crypt E buf k True False)
          = Some (Returned c')"
      by simp
    from read_body_padded [OF this _ _ p] len np validate_keeps [of E c buf]
    show ?thesis by (simp add: length_crypt crypt_input_def)
  qed
qed

text \<open>
  C2. Decoding a container and encoding it again does not always give the bytes that
  were read. Whenever \<open>gwsettings::read\<close> returns an object that has a key and has
  \<open>m_padded\<close> set (the encrypted and padded variant), and the groups serialise to the
  size that was read, \<open>gwsettings::write\<close> emits sixteen bytes more than the file had:
  \<open>crypt\<close> appends sixteen zero bytes before it encrypts and \<open>write\<close> appends sixteen
  more after the encrypted buffer.
\<close>

theorem padded_encrypted_grows:
  assumes "gwsettings_read E c buf = Some (Returned c')" and "length buf < 2 ^ 32"
    and "\<not> m_padded c" and "m_padded c'" and "m_key c' \<noteq> []" and "m_profile c' = Some p"
    and "80 + length (settings_write E (m_groups c')) = unat (m_size c')"
  shows "\<exists>out. gwsettings_write E c' = Inr out \<and> length out = (16 + length buf) + 16"
proof -
  from gwsettings_read_padded [OF assms(1-4)] have "unat (m_size c') + 16 = length buf" .
  with assms(7) have "length (write_buf E c') = length buf"
    using assms(4,5) by (simp add: length_write_buf)
  with assms(4,6) show ?thesis
    by (simp add: gwsettings_write_profile length_calc_checksum)
qed

theorem padded_encrypted_grows_witness:
  "gwsettings_read demo_env (new_gwsettings True (replicate 16 67) None)
     (crypt demo_env (s_magic @ [0, 1, 0, 0, 0, 80]) [5] False True)
   = Some (Returned
       \<lparr>m_type = type_cfg,
        m_profile = Some \<lparr>p_name = ''two'', md5_key = [2], default_keys = [[3], [5]]\<rparr>,
        m_permissive = True, m_groups = [], m_checksum = replicate 16 67,
        m_is_auto_profile = True, m_checksum_valid = True, m_magic_valid = True,
        m_size_valid = True, m_encrypted = False, m_version = (0, 1), m_size = 80,
        m_key = [5], m_padded = True\<rparr>)
   \<and> gwsettings_write demo_env
       \<lparr>m_type = type_cfg,
        m_profile = Some \<lparr>p_name = ''two'', md5_key = [2], default_keys = [[3], [5]]\<rparr>,
        m_permissive = True, m_groups = [], m_checksum = replicate 16 67,
        m_is_auto_profile = True, m_checksum_valid = True, m_magic_valid = True,
        m_size_valid = True, m_encrypted = False, m_version = (0, 1), m_size = 80,
        m_key = [5], m_padded = True\<rparr>
     = Inr (replicate 16 67 @ crypt demo_env (s_magic @ [0, 1, 0, 0, 0, 80]) [5] False True
              @ replicate 16 0)
   \<and> length (replicate 16 67 @ crypt demo_env (s_magic @ [0, 1, 0, 0, 0, 80]) [5] False True
              @ replicate 16 (0 :: byte))
     = length (replicate 16 (67 :: byte)
                 @ crypt demo_env (s_magic @ [0, 1, 0, 0, 0, 80]) [5] False True) + 16"
proof -
  let ?ct = "crypt demo_env (s_magic @ [0, 1, 0, 0, 0, 80]) [5] False True"
  let ?p = "\<lparr>p_name = ''two'', md5_key = [2], default_keys = [[3], [5]]\<rparr>"
  let ?c' = "\<lparr>m_type = type_cfg, m_profile = Some ?p,
        m_permissive = True, m_groups = [], m_checksum = replicate 16 67,
        m_is_auto_profile = True, m_checksum_valid = True, m_magic_valid = True,
        m_size_valid = True, m_encrypted = False, m_version = (0, 1), m_size = 80,
        m_key = [5], m_padded = True\<rparr>"
  have len: "length ?ct < 2 ^ 32"
    by (simp add: length_crypt crypt_input_def length_s_magic)
  have np: "\<not> m_padded (new_gwsettings True (replicate 16 67) None)"
    by (simp add: new_gwsettings_def)
  have body: "80 + length (settings_write demo_env (m_groups ?c')) = unat (m_size ?c')"
    by (simp add: demo_env_def)
  from padded_encrypted_grows [OF demo_padded_read len np _ _ _ body, of ?p]
  obtain out where "gwsettings_write demo_env ?c' = Inr out"
    and "length out = (16 + length ?ct) + 16"
    by auto
  with demo_padded_write demo_padded_read show ?thesis
    by simp
qed

text \<open>
  When the groups serialise to the bytes they were parsed from, a permdyn image and a
  cleartext gwsettings container without trailer are written back as they were read.
\<close>

lemma word_of_nat_size: "unat (sz :: 32 word) = n \<Longrightarrow> word_of_nat n = sz"
  by auto

lemma permdyn_round_trip:
  assumes "permdyn_read E c (replicate 186 0xff @ u32_bytes sz @ u32_bytes cks @ body)
           = Some (Returned (c', log))"
    and "settings_write E (m_groups c') = body"
    and "unat sz = 8 + length body" and "cks = crc32 body"
  shows "permdyn_write E c'
         = replicate 16 0xff @ replicate 186 0xff @ u32_bytes sz @ u32_bytes cks @ body"
proof -
  have "replicate 202 (0xff :: byte) = replicate 16 0xff @ replicate 186 0xff"
    by (simp add: replicate_add [symmetric])
  with assms(2-4) word_of_nat_size [OF assms(3)] show ?thesis
    by (simp add: permdyn_write_def)
qed

lemma validate_valid_new:
  assumes "m_checksum_valid (validate_checksum_and_detect_profile E
             (new_gwsettings permissive cks prof) buf)"
  shows "cks = calc_checksum E buf
           (m_profile (validate_checksum_and_detect_profile E
              (new_gwsettings permissive cks prof) buf))"
proof (cases prof)
  case (Some p)
  with assms show ?thesis
    by (simp add: validate_checksum_and_detect_profile_def validate_checksum_def
        new_gwsettings_def)
next
  case None
  let ?c = "new_gwsettings permissive cks None"
  show ?thesis
  proof (cases "find (\<lambda>p. calc_checksum E buf (Some p) = m_checksum ?c) (profile_list E)")
    case n: None
    with assms None show ?thesis
      by (simp add: validate_checksum_and_detect_profile_def detect_profile_find
          new_gwsettings_def split: if_splits)
  next
    case (Some p)
    then have "calc_checksum E buf (Some p) = m_checksum ?c"
      by (auto simp: find_Some_iff)
    with Some None show ?thesis
      by (simp add: validate_checksum_and_detect_profile_def detect_profile_find
          new_gwsettings_def)
  qed
qed

lemma validate_keeps_more:
  "m_checksum (validate_checksum_and_detect_profile E c buf) = m_checksum c
   \<and> m_version (validate_checksum_and_detect_profile E c buf) = m_version c"
  by (simp add: validate_checksum_and_detect_profile_def validate_checksum_def
      detect_profile_find split: option.split)

lemma check_size_keeps:
  "m_key (check_size c buf) = m_key c \<and> m_version (check_size c buf) = m_version c
   \<and> m_checksum_valid (check_size c buf) = m_checksum_valid c
   \<and> m_profile (check_size c buf) = m_profile c \<and> m_size (check_size c buf) = m_size c"
  by (simp add: check_size_def Let_def)

lemma read_body_result:
  assumes "read_body E c (pre @ [v0, v1] @ u32_bytes sz @ body) = Some (Returned c')"
    and "length pre = 74"
  shows "\<exists>gs. c' = (check_size (c\<lparr>m_version := (v0, v1), m_size := sz\<rparr>)
                       (pre @ [v0, v1] @ u32_bytes sz @ body))\<lparr>m_groups := gs\<rparr>"
proof -
  from assms(2) have v: "nv_version_read (drop 74 (pre @ [v0, v1] @ u32_bytes sz @ body))
                      = Some ((v0, v1), u32_bytes sz @ body)"
    by simp
  have u: "nv_u32_read (u32_bytes sz @ body) = Some (sz, body)"
    by (rule nv_u32_read_u32_bytes)
  from read_body_returned [OF assms(1)] v u show ?thesis
    by auto
qed

lemma cleartext_round_trip:
  assumes rd: "gwsettings_read E (new_gwsettings permissive cks prof)
                 (s_magic @ [v0, v1] @ u32_bytes sz @ body) = Some (Returned c')"
    and sz: "unat sz = 80 + length body"
    and grp: "settings_write E (m_groups c') = body"
    and valid: "m_checksum_valid c'" and prof: "m_profile c' = Some p"
  shows "gwsettings_write E c' = Inr (cks @ s_magic @ [v0, v1] @ u32_bytes sz @ body)"
proof -
  let ?buf = "s_magic @ [v0, v1] @ u32_bytes sz @ body"
  let ?c = "new_gwsettings permissive cks prof"
  let ?c1 = "validate_checksum_and_detect_profile E ?c ?buf"
  have len: "length ?buf = unat sz"
    by (simp add: sz length_s_magic length_u32_bytes)
  have "take 74 ?buf = s_magic" by (simp add: length_s_magic)
  with rd have "read_body E (?c1\<lparr>m_magic_valid := True\<rparr>) ?buf = Some (Returned c')"
    by (simp add: gwsettings_read_cleartext)
  from read_body_result [OF this length_s_magic] obtain gs
    where c': "c' = (check_size (?c1\<lparr>m_magic_valid := True, m_version := (v0, v1),
                                      m_size := sz\<rparr>) ?buf)\<lparr>m_groups := gs\<rparr>"
    by auto
  have k: "m_key c' = []" and v: "m_version c' = (v0, v1)"
    and pr: "m_profile c' = m_profile ?c1" and cv: "m_checksum_valid c' = m_checksum_valid ?c1"
    using validate_keeps [of E ?c ?buf]
    by (simp_all add: c' check_size_keeps new_gwsettings_def)
  have pd: "\<not> m_padded c'"
    using validate_keeps [of E ?c ?buf] len
    by (simp add: c' check_size_def Let_def new_gwsettings_def)
  from valid cv have "cks = calc_checksum E ?buf (m_profile ?c1)"
    by (simp add: validate_valid_new)
  with pr prof have cks: "cks = calc_checksum E ?buf (Some p)" by simp
  have "write_buf E c' = ?buf"
    using k v grp word_of_nat_size [OF sz]
    by (simp add: write_buf_def Let_def nv_version_write_def length_s_magic add.commute
        add.left_commute)
  with prof pd cks show ?thesis
    by (simp add: gwsettings_write_profile)
qed

lemma demo_group_padded_read:
  "gwsettings_read demo_env (new_gwsettings True (replicate 16 188) None)
     (crypt demo_env (s_magic @ [0, 1, 0, 0, 0, 89] @ [0, 9, 97, 0, 0, 0, 0, 1, 5]) [5]
        False True)
   = Some (Returned
       \<lparr>m_type = type_cfg,
        m_profile = Some \<lparr>p_name = ''two'', md5_key = [2], default_keys = [[3], [5]]\<rparr>,
        m_permissive = True,
        m_groups = [(''a'', \<lparr>g_magic = [97, 0, 0, 0], g_version = [0, 1], g_name = ''a'',
                             g_bytes = 9, g_payload = [5]\<rparr>)],
        m_checksum = replicate 16 188,
        m_is_auto_profile = True, m_checksum_valid = True, m_magic_valid = True,
        m_size_valid = True, m_encrypted = False, m_version = (0, 1), m_size = 89,
        m_key = [5], m_padded = True\<rparr>)"
  by code_simp

lemma demo_group_padded_write:
  "gwsettings_write demo_env
       \<lparr>m_type = type_cfg,
        m_profile = Some \<lparr>p_name = ''two'', md5_key = [2], default_keys = [[3], [5]]\<rparr>,
        m_permissive = True,
        m_groups = [(''a'', \<lparr>g_magic = [97, 0, 0, 0], g_version = [0, 1], g_name = ''a'',
                             g_bytes = 9, g_payload = [5]\<rparr>)],
        m_checksum = replicate 16 188,
        m_is_auto_profile = True, m_checksum_valid = True, m_magic_valid = True,
        m_size_valid = True, m_encrypted = False, m_version = (0, 1), m_size = 89,
        m_key = [5], m_padded = True\<rparr>
   = Inr (replicate 16 188
            @ crypt demo_env (s_magic @ [0, 1, 0, 0, 0, 89] @ [0, 9, 97, 0, 0, 0, 0, 1, 5]) [5]
                False True
            @ replicate 16 0)"
  by code_simp

text \<open>
  C3. A container whose size is the length of the buffer minus 16 is read with
  \<open>m_padded\<close> and \<open>m_size_valid\<close> set, but it does not round-trip: the file of 121
  bytes below, which is read with a key of the registry, is written back as 137
  bytes, the bytes that were read followed by sixteen more zero bytes.
\<close>

theorem padded_container_written_longer:
  "read_settings demo_env True
     (replicate 16 188
        @ crypt demo_env (s_magic @ [0, 1, 0, 0, 0, 89] @ [0, 9, 97, 0, 0, 0, 0, 1, 5]) [5]
            False True)
     type_cfg None []
   = Some (Gwsettings (Returned
       \<lparr>m_type = type_cfg,
        m_profile = Some \<lparr>p_name = ''two'', md5_key = [2], default_keys = [[3], [5]]\<rparr>,
        m_permissive = True,
        m_groups = [(''a'', \<lparr>g_magic = [97, 0, 0, 0], g_version = [0, 1], g_name = ''a'',
                             g_bytes = 9, g_payload = [5]\<rparr>)],
        m_checksum = replicate 16 188,
        m_is_auto_profile = True, m_checksum_valid = True, m_magic_valid = True,
        m_size_valid = True, m_encrypted = False, m_version = (0, 1), m_size = 89,
        m_key = [5], m_padded = True\<rparr>))
   \<and> gwsettings_write demo_env
       \<lparr>m_type = type_cfg,
        m_profile = Some \<lparr>p_name = ''two'', md5_key = [2], default_keys = [[3], [5]]\<rparr>,
        m_permissive = True,
        m_groups = [(''a'', \<lparr>g_magic = [97, 0, 0, 0], g_version = [0, 1], g_name = ''a'',
                             g_bytes = 9, g_payload = [5]\<rparr>)],
        m_checksum = replicate 16 188,
        m_is_auto_profile = True, m_checksum_valid = True, m_magic_valid = True,
        m_size_valid = True, m_encrypted = False, m_version = (0, 1), m_size = 89,
        m_key = [5], m_padded = True\<rparr>
     = Inr (replicate 16 188
              @ crypt demo_env (s_magic @ [0, 1, 0, 0, 0, 89] @ [0, 9, 97, 0, 0, 0, 0, 1, 5]) [5]
                  False True
              @ replicate 16 0)
   \<and> length (replicate 16 (188 :: byte)
        @ crypt demo_env (s_magic @ [0, 1, 0, 0, 0, 89] @ [0, 9, 97, 0, 0, 0, 0, 1, 5]) [5]
            False True) = 121
   \<and> length (replicate 16 (188 :: byte)
        @ crypt demo_env (s_magic @ [0, 1, 0, 0, 0, 89] @ [0, 9, 97, 0, 0, 0, 0, 1, 5]) [5]
            False True
        @ replicate 16 (0 :: byte)) = 137"
  using demo_group_padded_read demo_group_padded_write
  by (simp add: read_settings_def crypt_def length_crypt_blocks crypt_input_def length_s_magic)

end
